theory Spec2Isabelle
  imports Main
begin

section \<open>Data model\<close>

text \<open>
  The objects of \<^verbatim>\<open>src/ebook.js\<close>. A heading is the object \<^verbatim>\<open>h\<close> that
  \<^verbatim>\<open>parseHeadingsSync\<close> builds: \<^verbatim>\<open>level\<close>, \<^verbatim>\<open>title\<close> and an \<^verbatim>\<open>href\<close>
  property that may be absent (\<open>None\<close> is JavaScript's \<^verbatim>\<open>undefined\<close>). A page is
  \<^verbatim>\<open>{ href, headings }\<close>.
\<close>

record heading =
  level :: nat
  title :: string
  href :: "string option"

record page =
  page_href :: string
  headings :: "heading list"

text \<open>
  A node of the tree that \<^verbatim>\<open>buildToC_json\<close> builds. The source has three shapes of
  node: the root \<^verbatim>\<open>{ children: [] }\<close>, an entry \<^verbatim>\<open>{ title, href }\<close> and the
  placeholder \<^verbatim>\<open>{}\<close>; each may later receive a \<^verbatim>\<open>children\<close> array. An absent
  property is \<open>None\<close>.
\<close>

datatype entry =
  Entry (e_title: "string option") (e_href: "string option") (children: "entry list option")

text \<open>
  What a run can end with instead of a result: a \<^verbatim>\<open>TypeError\<close> thrown on a
  property of \<^verbatim>\<open>undefined\<close>, or the exception of \<^verbatim>\<open>fs.readFileSync\<close> for a
  file. \<open>Unparsed\<close> is no exception: it marks a run of a markup renderer on a heading
  whose title or link the markup parser would not read as plain text, which is where the
  model of the document stops.
\<close>

datatype error = TypeError | ReadError string | Unparsed

datatype diagnostic =
  NonContinuous nat string
| UnsupportedFormat "string option"

definition and_then :: "error + 'a \<Rightarrow> ('a \<Rightarrow> error + 'b) \<Rightarrow> error + 'b" where
  "and_then r f = (case r of Inl e \<Rightarrow> Inl e | Inr x \<Rightarrow> f x)"

section \<open>The nested builder: \<^verbatim>\<open>buildToC_json\<close>\<close>

text \<open>
  \<^verbatim>\<open>current\<close> is a reference to a node of the tree rooted at \<^verbatim>\<open>toc\<close>. Every node
  is created once and stored in exactly one \<^verbatim>\<open>children\<close> array, and arrays only grow
  at their end or are replaced by \<^verbatim>\<open>[]\<close> on the node \<^verbatim>\<open>current\<close> itself, so a
  reference is the path of child indices from the root. \<^verbatim>\<open>current\<close> may also become
  \<^verbatim>\<open>undefined\<close> (reading index \<open>-1\<close> of an empty array): that is \<open>None\<close>.
\<close>

fun lookup :: "entry \<Rightarrow> nat list \<Rightarrow> entry option" where
  "lookup e [] = Some e"
| "lookup e (i # p) =
     (case children e of
        None \<Rightarrow> None
      | Some cs \<Rightarrow> if i < length cs then lookup (cs ! i) p else None)"

definition set_children :: "entry list option \<Rightarrow> entry \<Rightarrow> entry" where
  "set_children cs e = Entry (e_title e) (e_href e) cs"

fun modify :: "(entry \<Rightarrow> entry) \<Rightarrow> nat list \<Rightarrow> entry \<Rightarrow> entry" where
  "modify f [] e = f e"
| "modify f (i # p) e =
     (case children e of
        None \<Rightarrow> e
      | Some cs \<Rightarrow>
          if i < length cs then set_children (Some (cs[i := modify f p (cs ! i)])) e else e)"

text \<open>\<^verbatim>\<open>current.children.length\<close>: a TypeError when \<^verbatim>\<open>current\<close> or its
  \<^verbatim>\<open>children\<close> is undefined.\<close>

definition children_length :: "entry \<Rightarrow> nat list option \<Rightarrow> error + nat" where
  "children_length root cur =
     (case cur of
        None \<Rightarrow> Inl TypeError
      | Some p \<Rightarrow>
          (case lookup root p of
             None \<Rightarrow> Inl TypeError
           | Some n \<Rightarrow>
               (case children n of
                  None \<Rightarrow> Inl TypeError
                | Some cs \<Rightarrow> Inr (length cs))))"

text \<open>\<^verbatim>\<open>current.children[current.children.length - 1]\<close>: on an empty array the
  index is \<open>-1\<close> and the value read is \<^verbatim>\<open>undefined\<close>.\<close>

definition last_child :: "entry \<Rightarrow> nat list option \<Rightarrow> error + nat list option" where
  "last_child root cur =
     (case cur of
        None \<Rightarrow> Inl TypeError
      | Some p \<Rightarrow>
          and_then (children_length root cur)
            (\<lambda>n. Inr (if n = 0 then None else Some (p @ [n - 1]))))"

text \<open>\<^verbatim>\<open>current.children = []\<close>: a TypeError when \<^verbatim>\<open>current\<close> is undefined.\<close>

definition reset_children :: "entry \<Rightarrow> nat list option \<Rightarrow> error + entry" where
  "reset_children root cur =
     (case cur of
        None \<Rightarrow> Inl TypeError
      | Some p \<Rightarrow> Inr (modify (set_children (Some [])) p root))"

text \<open>\<^verbatim>\<open>current.children.push(x)\<close>.\<close>

definition push :: "entry \<Rightarrow> nat list option \<Rightarrow> entry \<Rightarrow> error + entry" where
  "push root cur x =
     (case cur of
        None \<Rightarrow> Inl TypeError
      | Some p \<Rightarrow>
          (case lookup root p of
             None \<Rightarrow> Inl TypeError
           | Some n \<Rightarrow>
               (case children n of
                  None \<Rightarrow> Inl TypeError
                | Some cs \<Rightarrow> Inr (modify (set_children (Some (cs @ [x]))) p root))))"

text \<open>The loop of the first branch: \<^verbatim>\<open>for (i = 0; i < heading.level; i++) current =
  current.children[current.children.length - 1]\<close>.\<close>

fun ascend :: "entry \<Rightarrow> nat \<Rightarrow> nat list option \<Rightarrow> error + nat list option" where
  "ascend root 0 cur = Inr cur"
| "ascend root (Suc n) cur = and_then (last_child root cur) (ascend root n)"

text \<open>One round of the loop of the lenient branch: push \<^verbatim>\<open>{}\<close> if the array is
  empty, step to the last child, give it an empty array.\<close>

definition nest_round :: "entry \<times> nat list option \<Rightarrow> error + entry \<times> nat list option" where
  "nest_round rc =
     (case rc of (root, cur) \<Rightarrow>
        and_then (children_length root cur) (\<lambda>len.
        and_then (if len = 0 then push root cur (Entry None None None) else Inr root) (\<lambda>root1.
        and_then (last_child root1 cur) (\<lambda>cur1.
        and_then (reset_children root1 cur1) (\<lambda>root2.
        Inr (root2, cur1))))))"

text \<open>The loop itself: \<^verbatim>\<open>for (j = 0; j < heading.level - currentLevel; j++)\<close>.\<close>

fun nest :: "nat \<Rightarrow> entry \<times> nat list option \<Rightarrow> error + entry \<times> nat list option" where
  "nest 0 rc = Inr rc"
| "nest (Suc n) rc = and_then (nest_round rc) (nest n)"

record builder =
  toc :: entry
  current :: "nat list option"
  currentLevel :: nat

text \<open>The tail of the loop body, \<^verbatim>\<open>if (t) { currentLevel = heading.level;
  current.children.push(t); }\<close>, for \<^verbatim>\<open>t\<close> not null.\<close>

definition add_heading :: "entry \<Rightarrow> nat \<Rightarrow> entry \<Rightarrow> nat list option \<Rightarrow> error + builder" where
  "add_heading t l root cur =
     and_then (push root cur t)
       (\<lambda>root'. Inr \<lparr>toc = root', current = cur, currentLevel = l\<rparr>)"

text \<open>
  The body of the inner \<^verbatim>\<open>forEach\<close> for a heading with \<^verbatim>\<open>heading.level < depth\<close>.
  The first component is what the body writes with \<^verbatim>\<open>console.error\<close>; the second
  is the state after the body, or the exception it throws.
\<close>

definition place :: "bool \<Rightarrow> heading \<Rightarrow> builder \<Rightarrow> diagnostic list \<times> (error + builder)" where
  "place strict h s =
     (let t = Entry (Some (title h)) (href h) None in
      if level h < currentLevel s then
        ([], and_then (ascend (toc s) (level h) (Some []))
               (\<lambda>cur. add_heading t (level h) (toc s) cur))
      else if level h = currentLevel s + 1 then
        ([], and_then (last_child (toc s) (current s)) (\<lambda>cur.
             and_then (reset_children (toc s) cur) (\<lambda>root.
             add_heading t (level h) root cur)))
      else if level h > currentLevel s + 1 then
        ([NonContinuous (level h + 1) (title h)],
         if strict then Inr s
         else and_then (nest (level h - currentLevel s) (toc s, current s))
                (\<lambda>(root, cur). add_heading t (level h) root cur))
      else ([], add_heading t (level h) (toc s) (current s)))"

fun each_heading ::
  "nat \<Rightarrow> bool \<Rightarrow> heading list \<Rightarrow> builder \<Rightarrow> diagnostic list \<times> (error + builder)" where
  "each_heading depth strict [] s = ([], Inr s)"
| "each_heading depth strict (h # hs) s =
     (if level h < depth then
        (case place strict h s of
           (d, Inl e) \<Rightarrow> (d, Inl e)
         | (d, Inr s') \<Rightarrow>
             (case each_heading depth strict hs s' of (d', r) \<Rightarrow> (d @ d', r)))
      else each_heading depth strict hs s)"

fun each_page ::
  "nat \<Rightarrow> bool \<Rightarrow> page list \<Rightarrow> builder \<Rightarrow> diagnostic list \<times> (error + builder)" where
  "each_page depth strict [] s = ([], Inr s)"
| "each_page depth strict (p # ps) s =
     (case each_heading depth strict (headings p) s of
        (d, Inl e) \<Rightarrow> (d, Inl e)
      | (d, Inr s') \<Rightarrow>
          (case each_page depth strict ps s' of (d', r) \<Rightarrow> (d @ d', r)))"

definition init_builder :: builder where
  "init_builder = \<lparr>toc = Entry None None (Some []), current = Some [], currentLevel = 0\<rparr>"

definition run_json :: "page list \<Rightarrow> nat \<Rightarrow> bool \<Rightarrow> diagnostic list \<times> (error + builder)" where
  "run_json pages depth strict = each_page depth strict pages init_builder"

text \<open>\<^verbatim>\<open>buildToC_json\<close> returns \<^verbatim>\<open>toc.children\<close>, or throws.\<close>

definition buildToC_json :: "page list \<Rightarrow> nat \<Rightarrow> bool \<Rightarrow> error + entry list option" where
  "buildToC_json pages depth strict =
     and_then (snd (run_json pages depth strict)) (\<lambda>s. Inr (children (toc s)))"

definition json_diagnostics :: "page list \<Rightarrow> nat \<Rightarrow> bool \<Rightarrow> diagnostic list" where
  "json_diagnostics pages depth strict = fst (run_json pages depth strict)"

section \<open>Reading a tree in document order\<close>

text \<open>
  The entries of a tree in depth-first order, each with its nesting depth (the entries of
  \<^verbatim>\<open>toc.children\<close> are at depth 0), its title and its link. A placeholder has
  neither title nor link.
\<close>

fun entries :: "nat \<Rightarrow> entry \<Rightarrow> (nat \<times> string option \<times> string option) list" where
  "entries d (Entry t l cs) =
     (d, t, l) # (case cs of None \<Rightarrow> [] | Some es \<Rightarrow> concat (map (entries (Suc d)) es))"

definition below :: "nat \<Rightarrow> entry \<Rightarrow> (nat \<times> string option \<times> string option) list" where
  "below d e = (case children e of None \<Rightarrow> [] | Some es \<Rightarrow> concat (map (entries d) es))"

fun rightmost :: "entry \<Rightarrow> nat list \<Rightarrow> bool" where
  "rightmost e [] = True"
| "rightmost e (i # p) =
     (case children e of
        None \<Rightarrow> False
      | Some cs \<Rightarrow> cs \<noteq> [] \<and> i = length cs - 1 \<and> rightmost (last cs) p)"


abbreviation placeholder :: "nat \<Rightarrow> nat \<times> string option \<times> string option" where
  "placeholder j \<equiv> (j, None, None)"


definition listed :: "heading \<Rightarrow> nat \<times> string option \<times> string option" where
  "listed h = (level h, Some (title h), href h)"

definition wf_state :: "builder \<Rightarrow> bool" where
  "wf_state s \<longleftrightarrow>
     (\<exists>p n ks. current s = Some p \<and> length p = currentLevel s \<and> rightmost (toc s) p
        \<and> lookup (toc s) p = Some n \<and> children n = Some ks
        \<and> (ks = [] \<longrightarrow> s = init_builder)
        \<and> (ks \<noteq> [] \<longrightarrow> children (last ks) = None))"

definition gap :: "builder \<Rightarrow> heading \<Rightarrow> (nat \<times> string option \<times> string option) list" where
  "gap s h =
     (if currentLevel s + 1 < level h
      then map placeholder [(if s = init_builder then 0 else currentLevel s + 1) ..< level h]
      else [])"


text \<open>
  What the builder is expected to list, as a function of the headings alone: \<open>c\<close> is
  the level of the last heading placed and \<open>fresh\<close> says that none has been placed.
  \<open>None\<close> is the failure of the builder.
\<close>

fun flat_model ::
  "bool \<Rightarrow> bool \<Rightarrow> nat \<Rightarrow> heading list \<Rightarrow> (nat \<times> string option \<times> string option) list option" where
  "flat_model strict fresh c [] = Some []"
| "flat_model strict fresh c (h # hs) =
     (if c + 1 < level h then
        (if strict then flat_model strict fresh c hs
         else map_option
                (\<lambda>r. map placeholder [(if fresh then 0 else c + 1) ..< level h] @ listed h # r)
                (flat_model strict False (level h) hs))
      else if fresh \<and> level h = 1 then None
      else map_option (\<lambda>r. listed h # r) (flat_model strict False (level h) hs))"


definition forest :: "entry list \<Rightarrow> (nat \<times> string option \<times> string option) list" where
  "forest es = concat (map (entries 0) es)"

definition stream :: "page list \<Rightarrow> heading list" where
  "stream pages = concat (map headings pages)"

definition in_range :: "nat \<Rightarrow> heading list \<Rightarrow> heading list" where
  "in_range depth hs = filter (\<lambda>h. level h < depth) hs"

text \<open>The headings that strict mode keeps: one that rises by more than one level above
  the last kept heading (above level 0 at the start) is discarded.\<close>

fun kept_strict :: "nat \<Rightarrow> heading list \<Rightarrow> heading list" where
  "kept_strict c [] = []"
| "kept_strict c (h # hs) =
     (if c + 1 < level h then kept_strict c hs else h # kept_strict (level h) hs)"

text \<open>A level sequence, after a heading of level \<open>c\<close>, that never falls and rises by at
  most one at each step.\<close>

fun gentle :: "nat \<Rightarrow> nat list \<Rightarrow> bool" where
  "gentle c [] = True"
| "gentle c (l # ls) = (c \<le> l \<and> l \<le> c + 1 \<and> gentle l ls)"

definition steps_ok :: "nat list \<Rightarrow> bool" where
  "steps_ok ls = (case ls of [] \<Rightarrow> True | l # ls' \<Rightarrow> gentle l ls')"

text \<open>The path from a node through the last child, \<open>n\<close> times.\<close>

fun last_path :: "entry \<Rightarrow> nat \<Rightarrow> nat list option" where
  "last_path e 0 = Some []"
| "last_path e (Suc n) =
     (case children e of
        None \<Rightarrow> None
      | Some cs \<Rightarrow>
          if cs = [] then None
          else map_option ((#) (length cs - 1)) (last_path (last cs) n))"

section \<open>Anchor resolution: \<^verbatim>\<open>getHeadingID\<close>\<close>

text \<open>
  The page is read and queried through the cheerio library, which is not part of the
  repository; \<^verbatim>\<open>getHeadingID\<close> uses five of its operations on a selection
  \<^verbatim>\<open>elt\<close> of at most one element: \<^verbatim>\<open>elt.length\<close>, \<^verbatim>\<open>elt.attr('id')\<close>,
  \<^verbatim>\<open>elt.text()\<close>, \<^verbatim>\<open>elt.prev()\<close> and \<^verbatim>\<open>elt.parent()\<close>. The nodes before an
  element under its parent are text nodes and elements; \<^verbatim>\<open>prev()\<close> selects the
  nearest preceding sibling that is an element and passes over text nodes. An element is
  modelled by its \<^verbatim>\<open>id\<close> attribute (\<open>None\<close> when the attribute is absent), its text
  content, the sibling nodes before it, nearest first, each with its text, and its parent
  element. The empty selection is \<open>None\<close>.
\<close>

datatype sibling = TextNode string | ElementNode string

datatype element =
  Element (attr_id: "string option") (elt_text: string)
          (before: "sibling list") (parent: "element option")

text \<open>JavaScript's truthiness of a value that is a string or \<^verbatim>\<open>undefined\<close>.\<close>

definition truthy :: "string option \<Rightarrow> bool" where
  "truthy v = (case v of None \<Rightarrow> False | Some s \<Rightarrow> s \<noteq> [])"

text \<open>The inner loop: \<^verbatim>\<open>p = elt.prev(); while (p.length) { txt += p.text(); p = p.prev(); }\<close>
  on the sibling nodes before \<^verbatim>\<open>elt\<close>; \<^verbatim>\<open>prev()\<close> steps to the next of them that is
  an element.\<close>

fun prev_text :: "sibling list \<Rightarrow> string \<Rightarrow> string" where
  "prev_text [] txt = txt"
| "prev_text (TextNode t # ss) txt = prev_text ss txt"
| "prev_text (ElementNode t # ss) txt = prev_text ss (txt @ t)"

text \<open>The outer loop, \<^verbatim>\<open>while (elt.length && !txt.length)\<close>, on the variables
  \<^verbatim>\<open>elt\<close>, \<^verbatim>\<open>txt\<close> and \<^verbatim>\<open>id\<close> (here \<open>ident\<close>); its value is the
  \<^verbatim>\<open>id\<close> returned.\<close>

fun walk :: "element option \<Rightarrow> string \<Rightarrow> string option \<Rightarrow> string option" where
  "walk None txt ident = ident"
| "walk (Some (Element i t ss pa)) txt ident =
     (if txt \<noteq> [] then ident
      else if truthy i then i
      else walk pa (prev_text ss txt) i)"

definition getHeadingID :: "element \<Rightarrow> string option" where
  "getHeadingID elt = walk (Some elt) [] (Some [])"

text \<open>The element and its ancestors, nearest first. The text that the inner loop
  collects for an element, which is the text of its preceding sibling elements; and the
  text of all sibling nodes before an element, text nodes included, in the same order.\<close>

fun chain :: "element \<Rightarrow> element list" where
  "chain (Element i t ss pa) =
     Element i t ss pa # (case pa of None \<Rightarrow> [] | Some p \<Rightarrow> chain p)"

definition before_text :: "element \<Rightarrow> string" where
  "before_text e = prev_text (before e) []"

fun sibling_text :: "sibling \<Rightarrow> string" where
  "sibling_text (TextNode t) = t"
| "sibling_text (ElementNode t) = t"

definition leading_text :: "element \<Rightarrow> string" where
  "leading_text e = concat (map sibling_text (before e))"

section \<open>Heading extraction: \<^verbatim>\<open>parseHeadingsSync\<close>\<close>

text \<open>
  The selector \<^verbatim>\<open>'h1, h2, h3, h4, h5, h6'\<close> matches elements of six tag names;
  \<^verbatim>\<open>parseInt(element.tagName.substr(1), 10)\<close> is the digit of the name.
\<close>

datatype htag = H1 | H2 | H3 | H4 | H5 | H6

fun tag_number :: "htag \<Rightarrow> nat" where
  "tag_number H1 = 1"
| "tag_number H2 = 2"
| "tag_number H3 = 3"
| "tag_number H4 = 4"
| "tag_number H5 = 5"
| "tag_number H6 = 6"

text \<open>
  The title: \<^verbatim>\<open>elt.text().replace(/^\s+|\s+$/g, '').replace(/\s+/g, ' ')\<close>.
  Strings are byte strings here, text in UTF-8. The class \<^verbatim>\<open>\s\<close> of JavaScript is
  tab, line feed, vertical tab, form feed, carriage return and space, and the characters
  U+00A0, U+1680, U+2000 to U+200A, U+2028, U+2029, U+202F, U+205F, U+3000 and U+FEFF,
  which take two or three bytes.
\<close>

definition space_codes :: "string list" where
  "space_codes =
     [[CHR 0x09], [CHR 0x0A], [CHR 0x0B], [CHR 0x0C], [CHR 0x0D], [CHR 0x20],
      [CHR 0xC2, CHR 0xA0],
      [CHR 0xE1, CHR 0x9A, CHR 0x80],
      [CHR 0xE2, CHR 0x80, CHR 0x80], [CHR 0xE2, CHR 0x80, CHR 0x81],
      [CHR 0xE2, CHR 0x80, CHR 0x82], [CHR 0xE2, CHR 0x80, CHR 0x83],
      [CHR 0xE2, CHR 0x80, CHR 0x84], [CHR 0xE2, CHR 0x80, CHR 0x85],
      [CHR 0xE2, CHR 0x80, CHR 0x86], [CHR 0xE2, CHR 0x80, CHR 0x87],
      [CHR 0xE2, CHR 0x80, CHR 0x88], [CHR 0xE2, CHR 0x80, CHR 0x89],
      [CHR 0xE2, CHR 0x80, CHR 0x8A],
      [CHR 0xE2, CHR 0x80, CHR 0xA8], [CHR 0xE2, CHR 0x80, CHR 0xA9],
      [CHR 0xE2, CHR 0x80, CHR 0xAF],
      [CHR 0xE2, CHR 0x81, CHR 0x9F],
      [CHR 0xE3, CHR 0x80, CHR 0x80],
      [CHR 0xEF, CHR 0xBB, CHR 0xBF]]"

text \<open>The number of bytes of the white-space character that a string starts with, 0 when
  it starts with none.\<close>

definition space_len :: "string \<Rightarrow> nat" where
  "space_len s =
     (case filter (\<lambda>p. take (length p) s = p) space_codes of
        [] \<Rightarrow> 0
      | p # ps \<Rightarrow> length p)"

text \<open>A string as the sequence of its white-space characters (\<open>None\<close>) and its other
  bytes.\<close>

fun tokens :: "string \<Rightarrow> char option list" where
  "tokens [] = []"
| "tokens (c # cs) =
     (if space_len (c # cs) = 0 then Some c # tokens cs
      else None # tokens (drop (space_len (c # cs) - 1) cs))"

definition is_space :: "char option \<Rightarrow> bool" where
  "is_space t = (t = None)"

definition trim :: "char option list \<Rightarrow> char option list" where
  "trim ts = rev (dropWhile is_space (rev (dropWhile is_space ts)))"

function collapse :: "char option list \<Rightarrow> string" where
  "collapse [] = []"
| "collapse (None # ts) = CHR '' '' # collapse (dropWhile is_space ts)"
| "collapse (Some c # ts) = c # collapse ts"
  by pat_completeness auto
termination
  by (relation "measure length") (auto simp: length_dropWhile_le le_imp_less_Suc)

definition normalize_title :: "string \<Rightarrow> string" where
  "normalize_title s = collapse (trim (tokens s))"

text \<open>
  The callback of \<^verbatim>\<open>.each\<close> for the element \<open>m\<close> at position \<open>index\<close> of the
  page \<open>url\<close> (the source's \<^verbatim>\<open>href\<close>); \<open>hs\<close> is the array \<^verbatim>\<open>headings\<close>.
\<close>

definition make_heading :: "string \<Rightarrow> nat \<Rightarrow> htag \<times> element \<Rightarrow> heading" where
  "make_heading url index m =
     (let h = \<lparr>level = tag_number (fst m) - 1,
                title = normalize_title (elt_text (snd m)),
                href = None\<rparr>;
          ident = getHeadingID (snd m)
      in if truthy ident then h\<lparr>href := Some (url @ ''#'' @ the ident)\<rparr>
         else if index = 0 then h\<lparr>href := Some url\<rparr>
         else h)"

definition parse_heading ::
  "string \<Rightarrow> bool \<Rightarrow> nat \<Rightarrow> htag \<times> element \<Rightarrow> heading list \<Rightarrow> heading list" where
  "parse_heading url keepAllHeadings index m hs =
     (let h = make_heading url index m
      in if truthy (href h) \<or> keepAllHeadings then hs @ [h] else hs)"

fun each_element ::
  "string \<Rightarrow> bool \<Rightarrow> nat \<Rightarrow> (htag \<times> element) list \<Rightarrow> heading list \<Rightarrow> heading list" where
  "each_element url keepAllHeadings index [] hs = hs"
| "each_element url keepAllHeadings index (m # ms) hs =
     each_element url keepAllHeadings (Suc index) ms
       (parse_heading url keepAllHeadings index m hs)"

text \<open>
  Reading and parsing a page is the work of \<^verbatim>\<open>fs.readFileSync\<close> and
  \<^verbatim>\<open>cheerio.load\<close>: \<open>load basedir url\<close> is the list of the heading elements of the
  page in document order, or \<open>None\<close> when reading the file throws.
\<close>

fun parseHeadingsSync ::
  "(string \<Rightarrow> string \<Rightarrow> (htag \<times> element) list option) \<Rightarrow> string \<Rightarrow> string list \<Rightarrow> bool
   \<Rightarrow> error + page list" where
  "parseHeadingsSync load basedir [] keepAllHeadings = Inr []"
| "parseHeadingsSync load basedir (url # urls) keepAllHeadings =
     (case load basedir url of
        None \<Rightarrow> Inl (ReadError url)
      | Some ms \<Rightarrow>
          and_then (parseHeadingsSync load basedir urls keepAllHeadings)
            (\<lambda>pages. Inr (\<lparr>page_href = url,
                             headings = each_element url keepAllHeadings 0 ms []\<rparr> # pages)))"

section \<open>Configuration\<close>

text \<open>
  The fields of \<^verbatim>\<open>config\<close> that the table of contents uses. \<^verbatim>\<open>parseArgsSync\<close>
  sets \<^verbatim>\<open>charset\<close>, \<^verbatim>\<open>format\<close>, \<^verbatim>\<open>depth\<close> and \<^verbatim>\<open>keepAllHeadings\<close>;
  \<^verbatim>\<open>strict\<close> and \<^verbatim>\<open>title\<close> are absent unless the caller gives them (an absent
  \<^verbatim>\<open>strict\<close> is falsy, an absent \<^verbatim>\<open>title\<close> prints as \<^verbatim>\<open>undefined\<close>).
\<close>

record config =
  cfg_basedir :: string
  cfg_spine :: "string list"
  cfg_identifier :: string
  cfg_charset :: string
  cfg_title :: string
  cfg_format :: "string option"
  cfg_depth :: nat
  cfg_keepAllHeadings :: bool
  cfg_strict :: bool

definition default_config :: "string \<Rightarrow> string \<Rightarrow> string list \<Rightarrow> config" where
  "default_config cwd uuid files =
     \<lparr>cfg_basedir = cwd, cfg_spine = files, cfg_identifier = uuid, cfg_charset = ''UTF-8'',
      cfg_title = ''undefined'', cfg_format = Some ''txt'', cfg_depth = 6,
      cfg_keepAllHeadings = False, cfg_strict = False\<rparr>"

text \<open>Heading extraction followed by the nested builder, as \<^verbatim>\<open>buildToC\<close> calls them
  for the format \<^verbatim>\<open>json\<close> when it is given no pages.\<close>

definition toc_json ::
  "(string \<Rightarrow> string \<Rightarrow> (htag \<times> element) list option) \<Rightarrow> config \<Rightarrow> error + entry list option" where
  "toc_json load config =
     and_then (parseHeadingsSync load (cfg_basedir config) (cfg_spine config)
                 (cfg_keepAllHeadings config))
       (\<lambda>pages. buildToC_json pages (cfg_depth config) (cfg_strict config))"

text \<open>
  Two example pages: \<^verbatim>\<open><html><body><h1>Intro</h1><h2>Background</h2></body></html>\<close>
  as \<^verbatim>\<open>A.html\<close> and \<^verbatim>\<open><html><body><h1>Conclusion</h1></body></html>\<close> as
  \<^verbatim>\<open>B.html\<close>; no element has an \<^verbatim>\<open>id\<close>.
\<close>

definition example_body :: "string \<Rightarrow> element" where
  "example_body t = Element None t [] (Some (Element None t [] None))"

definition example_load :: "string \<Rightarrow> string \<Rightarrow> (htag \<times> element) list option" where
  "example_load basedir url =
     (if url = ''A.html'' then
        Some [(H1, Element None ''Intro'' [] (Some (example_body ''IntroBackground''))),
              (H2, Element None ''Background'' [ElementNode ''Intro'']
                     (Some (example_body ''IntroBackground'')))]
      else if url = ''B.html'' then
        Some [(H1, Element None ''Conclusion'' [] (Some (example_body ''Conclusion'')))]
      else None)"

section \<open>The flat renderer: \<^verbatim>\<open>buildToC_txt\<close>\<close>

definition indent :: "nat \<Rightarrow> string" where
  "indent l = [CHR 0x0A] @ ''    '' @ concat (replicate l ''  '')"

fun txt_headings :: "nat \<Rightarrow> heading list \<Rightarrow> string \<Rightarrow> string" where
  "txt_headings depth [] txt = txt"
| "txt_headings depth (h # hs) txt =
     txt_headings depth hs
       (if level h < depth then txt @ indent (level h) @ title h else txt)"

fun txt_pages :: "nat \<Rightarrow> page list \<Rightarrow> string \<Rightarrow> string" where
  "txt_pages depth [] txt = txt"
| "txt_pages depth (p # ps) txt = txt_pages depth ps (txt_headings depth (headings p) txt)"

definition buildToC_txt :: "page list \<Rightarrow> nat \<Rightarrow> string" where
  "buildToC_txt pages depth = txt_pages depth pages [] @ [CHR 0x0A]"



section \<open>The markup renderers: \<^verbatim>\<open>buildToC_xhtml\<close> and \<^verbatim>\<open>buildToC_ncx\<close>\<close>

text \<open>
  Both build a document with the cheerio library. The model has the document as a tree of
  text and element nodes, a selection of at most one element as the path of child indices
  to it (\<open>None\<close> is the empty selection), and the four operations the builders use:
  \<^verbatim>\<open>append\<close> (on the empty selection it does nothing), \<^verbatim>\<open>find(name)\<close>, which
  selects the descendants of that name in document order, followed by \<^verbatim>\<open>last()\<close>.
  The builders append markup that they write as a string, with the title and the link of
  the heading spliced in; cheerio parses the string. The model has the nodes that the
  string parses to when the title has no \<^verbatim>\<open><\<close> and the link no double quote, so
  that the parser reads the title as text (one text node, none for the empty title) and
  the link as the value of the attribute. For any other heading the run ends with
  \<open>Unparsed\<close>.
\<close>

datatype node =
  Text string
| Tag (tag_name: string) (attributes: "(string \<times> string) list") (child_nodes: "node list")

fun get :: "node \<Rightarrow> nat list \<Rightarrow> node option" where
  "get n [] = Some n"
| "get (Text t) (i # p) = None"
| "get (Tag n a ks) (i # p) = (if i < length ks then get (ks ! i) p else None)"

fun append_at :: "nat list \<Rightarrow> node list \<Rightarrow> node \<Rightarrow> node" where
  "append_at p new (Text t) = Text t"
| "append_at [] new (Tag n a ks) = Tag n a (ks @ new)"
| "append_at (i # p) new (Tag n a ks) =
     (if i < length ks then Tag n a (ks[i := append_at p new (ks ! i)]) else Tag n a ks)"

text \<open>The text of a node, as \<^verbatim>\<open>text()\<close> gives it.\<close>

fun text_of :: "node \<Rightarrow> string" where
  "text_of (Text t) = t"
| "text_of (Tag n a ks) = concat (map text_of ks)"

definition plain_text :: "string \<Rightarrow> bool" where
  "plain_text t = (CHR ''<'' \<notin> set t)"

definition plain_value :: "string \<Rightarrow> bool" where
  "plain_value v = (CHR 0x22 \<notin> set v)"

definition plain_heading :: "heading \<Rightarrow> bool" where
  "plain_heading h =
     (plain_text (title h) \<and> (case href h of None \<Rightarrow> True | Some l \<Rightarrow> plain_value l))"

definition text_nodes :: "string \<Rightarrow> node list" where
  "text_nodes t = (if t = [] then [] else [Text t])"

definition is_tag :: "string \<Rightarrow> node \<Rightarrow> bool" where
  "is_tag name n = (case n of Text t \<Rightarrow> False | Tag m a ks \<Rightarrow> m = name)"

text \<open>The paths of the descendants of a node that are elements of a given name, in
  document order; \<open>descendants_from\<close> does the children from index \<open>i\<close> on.\<close>

fun descendants :: "string \<Rightarrow> node \<Rightarrow> nat list list"
  and descendants_from :: "string \<Rightarrow> nat \<Rightarrow> node list \<Rightarrow> nat list list" where
  "descendants name (Text t) = []"
| "descendants name (Tag n a ks) = descendants_from name 0 ks"
| "descendants_from name i [] = []"
| "descendants_from name i (k # ks) =
     (if is_tag name k then [[i]] else []) @ map ((#) i) (descendants name k)
       @ descendants_from name (Suc i) ks"

definition sel_append :: "node \<Rightarrow> nat list option \<Rightarrow> node list \<Rightarrow> node" where
  "sel_append doc sel new = (case sel of None \<Rightarrow> doc | Some p \<Rightarrow> append_at p new doc)"

definition find_last :: "string \<Rightarrow> node \<Rightarrow> nat list option \<Rightarrow> nat list option" where
  "find_last name doc sel =
     (case sel of
        None \<Rightarrow> None
      | Some p \<Rightarrow>
          (case get doc p of
             None \<Rightarrow> None
           | Some n \<Rightarrow>
               (case descendants name n of [] \<Rightarrow> None | q # qs \<Rightarrow> Some (p @ last (q # qs)))))"

subsection \<open>\<^verbatim>\<open>buildToC_xhtml\<close>\<close>

text \<open>The document parsed from \<^verbatim>\<open>'  <nav epub:type="toc"><ol></ol>\n  </nav>'\<close>,
  under a root node; \<^verbatim>\<open>$('ol')\<close> selects the element at path \<open>[1, 0]\<close>.\<close>

definition xhtml_start :: node where
  "xhtml_start =
     Tag ''root'' []
       [Text ''  '',
        Tag ''nav'' [(''epub:type'', ''toc'')] [Tag ''ol'' [] [], Text ([CHR 0x0A] @ ''  '')]]"

record xhtml_state =
  x_doc :: node
  x_ol :: "nat \<Rightarrow> nat list option option"
  x_currentLevel :: nat

definition xhtml_init :: xhtml_state where
  "xhtml_init =
     \<lparr>x_doc = xhtml_start, x_ol = (\<lambda>k. None)(0 := Some (Some [1, 0])), x_currentLevel = 0\<rparr>"

text \<open>The node that the string \<^verbatim>\<open>title\<close> parses to for a plain heading:
  \<^verbatim>\<open>'<a href="' + heading.href + '">' + heading.title + '</a>'\<close> when
  \<^verbatim>\<open>heading.href\<close> is truthy and \<^verbatim>\<open>'<span>' + heading.title + '</span>'\<close>
  otherwise. The nodes of \<^verbatim>\<open>li = indent(heading.level) + '<li>' + title + '</li>'\<close>:
  the indentation and the list item.\<close>

definition title_node :: "heading \<Rightarrow> node" where
  "title_node h =
     (if truthy (href h) then Tag ''a'' [(''href'', the (href h))] (text_nodes (title h))
      else Tag ''span'' [] (text_nodes (title h)))"

definition li_nodes :: "heading \<Rightarrow> node list" where
  "li_nodes h = [Text (indent (level h)), Tag ''li'' [] [title_node h]]"

text \<open>The body of the loop for a heading within the depth limit. Reading an index of
  \<^verbatim>\<open>ol\<close> that was never assigned gives \<^verbatim>\<open>undefined\<close>, and the call on it
  throws.\<close>

definition xhtml_place :: "heading \<Rightarrow> xhtml_state \<Rightarrow> error + xhtml_state" where
  "xhtml_place h s =
     (if \<not> plain_heading h then Inl Unparsed
      else if level h \<le> x_currentLevel s then
        (case x_ol s (level h) of
           None \<Rightarrow> Inl TypeError
         | Some sel \<Rightarrow>
             Inr (s\<lparr>x_doc := sel_append (x_doc s) sel (li_nodes h),
                    x_currentLevel := level h\<rparr>))
      else
        (case x_ol s (x_currentLevel s) of
           None \<Rightarrow> Inl TypeError
         | Some sel \<Rightarrow>
             (let doc = sel_append (x_doc s) (find_last ''li'' (x_doc s) sel)
                          [Tag ''ol'' [] (li_nodes h)]
              in Inr \<lparr>x_doc = doc,
                      x_ol = (x_ol s)(level h := Some (find_last ''ol'' doc sel)),
                      x_currentLevel = level h\<rparr>)))"

fun xhtml_headings :: "nat \<Rightarrow> heading list \<Rightarrow> xhtml_state \<Rightarrow> error + xhtml_state" where
  "xhtml_headings depth [] s = Inr s"
| "xhtml_headings depth (h # hs) s =
     (if level h < depth then and_then (xhtml_place h s) (xhtml_headings depth hs)
      else xhtml_headings depth hs s)"

fun xhtml_pages :: "nat \<Rightarrow> page list \<Rightarrow> xhtml_state \<Rightarrow> error + xhtml_state" where
  "xhtml_pages depth [] s = Inr s"
| "xhtml_pages depth (p # ps) s =
     and_then (xhtml_headings depth (headings p) s) (xhtml_pages depth ps)"

text \<open>The document that \<^verbatim>\<open>buildToC_xhtml\<close> serialises with \<^verbatim>\<open>$.html()\<close>; the
  serialiser \<open>html\<close> is cheerio's.\<close>

definition xhtml_doc :: "page list \<Rightarrow> nat \<Rightarrow> error + node" where
  "xhtml_doc pages depth = and_then (xhtml_pages depth pages xhtml_init) (\<lambda>s. Inr (x_doc s))"

definition buildToC_xhtml :: "(node \<Rightarrow> string) \<Rightarrow> page list \<Rightarrow> nat \<Rightarrow> error + string" where
  "buildToC_xhtml html pages depth = and_then (xhtml_doc pages depth) (\<lambda>doc. Inr (html doc))"

text \<open>
  The elements of a given name in a document, in document order, each with the number of
  elements of that name it is nested in and with a label read from its children.
\<close>

fun items ::
  "string \<Rightarrow> (node list \<Rightarrow> string option \<times> string option) \<Rightarrow> nat \<Rightarrow> node
   \<Rightarrow> (nat \<times> string option \<times> string option) list" where
  "items name label d (Text t) = []"
| "items name label d (Tag n a ks) =
     (if n = name then (d, label ks) # concat (map (items name label (Suc d)) ks)
      else concat (map (items name label d) ks))"



subsection \<open>\<^verbatim>\<open>buildToC_ncx\<close>\<close>

text \<open>A number written in decimal, as string concatenation does.\<close>

definition digit :: "nat \<Rightarrow> char" where
  "digit n = char_of (48 + n)"

function show_nat :: "nat \<Rightarrow> string" where
  "show_nat n = (if n < 10 then [digit n] else show_nat (n div 10) @ [digit (n mod 10)])"
  by pat_completeness auto
termination
  by (relation "measure (\<lambda>n. n)") auto

text \<open>The document parsed from \<^verbatim>\<open>'<navMap></navMap>'\<close>, under a root node;
  \<^verbatim>\<open>$('navMap')\<close> selects the element at path \<open>[0]\<close>.\<close>

definition ncx_start :: node where
  "ncx_start = Tag ''root'' [] [Tag ''navMap'' [] []]"

record ncx_state =
  n_doc :: node
  n_nav :: "nat \<Rightarrow> nat list option option"
  n_currentLevel :: nat
  n_playOrder :: nat

definition ncx_init :: ncx_state where
  "ncx_init =
     \<lparr>n_doc = ncx_start, n_nav = (\<lambda>k. None)(0 := Some (Some [0])), n_currentLevel = 0,
      n_playOrder = 1\<rparr>"

text \<open>The nodes that the string \<^verbatim>\<open>point\<close> parses to for a plain heading: the
  indentation and the \<^verbatim>\<open>navPoint\<close> element with its label and its target; an
  absent \<^verbatim>\<open>heading.href\<close> is written as \<^verbatim>\<open>undefined\<close>.\<close>

definition nav_point :: "heading \<Rightarrow> nat \<Rightarrow> node" where
  "nav_point h n =
     Tag ''navPoint'' [(''id'', ''nav_'' @ show_nat n), (''playOrder'', show_nat n)]
       [Tag ''navLabel'' [] [Tag ''text'' [] (text_nodes (title h))],
        Tag ''content''
          [(''src'', case href h of None \<Rightarrow> ''undefined'' | Some l \<Rightarrow> l)] []]"

definition point_nodes :: "heading \<Rightarrow> nat \<Rightarrow> node list" where
  "point_nodes h n = [Text (indent (level h)), nav_point h n]"

definition ncx_place :: "heading \<Rightarrow> ncx_state \<Rightarrow> error + ncx_state" where
  "ncx_place h s =
     (if \<not> plain_heading h then Inl Unparsed
      else if level h \<le> n_currentLevel s then
        (case n_nav s (level h) of
           None \<Rightarrow> Inl TypeError
         | Some sel \<Rightarrow>
             Inr (s\<lparr>n_doc := sel_append (n_doc s) sel (point_nodes h (n_playOrder s)),
                    n_currentLevel := level h,
                    n_playOrder := n_playOrder s + 1\<rparr>))
      else
        (case n_nav s (n_currentLevel s) of
           None \<Rightarrow> Inl TypeError
         | Some sel \<Rightarrow>
             (let target = find_last ''navPoint'' (n_doc s) sel
              in Inr \<lparr>n_doc = sel_append (n_doc s) target (point_nodes h (n_playOrder s)),
                      n_nav = (n_nav s)(level h := Some target),
                      n_currentLevel = level h,
                      n_playOrder = n_playOrder s + 1\<rparr>)))"

fun ncx_headings :: "nat \<Rightarrow> heading list \<Rightarrow> ncx_state \<Rightarrow> error + ncx_state" where
  "ncx_headings depth [] s = Inr s"
| "ncx_headings depth (h # hs) s =
     (if level h < depth then and_then (ncx_place h s) (ncx_headings depth hs)
      else ncx_headings depth hs s)"

fun ncx_pages :: "nat \<Rightarrow> page list \<Rightarrow> ncx_state \<Rightarrow> error + ncx_state" where
  "ncx_pages depth [] s = Inr s"
| "ncx_pages depth (p # ps) s =
     and_then (ncx_headings depth (headings p) s) (ncx_pages depth ps)"

definition ncx_doc :: "page list \<Rightarrow> nat \<Rightarrow> error + node" where
  "ncx_doc pages depth = and_then (ncx_pages depth pages ncx_init) (\<lambda>s. Inr (n_doc s))"

definition buildToC_ncx :: "(node \<Rightarrow> string) \<Rightarrow> page list \<Rightarrow> nat \<Rightarrow> error + string" where
  "buildToC_ncx html pages depth = and_then (ncx_doc pages depth) (\<lambda>doc. Inr (html doc))"




section \<open>The dispatcher: \<^verbatim>\<open>buildToC\<close>\<close>

text \<open>
  What \<^verbatim>\<open>buildToC\<close> takes from outside the repository: the reader of pages (see
  \<^verbatim>\<open>parseHeadingsSync\<close>), \<^verbatim>\<open>JSON.stringify(toc, null, 2)\<close> and cheerio's
  \<^verbatim>\<open>$.html()\<close>.
\<close>

record externals =
  ext_load :: "string \<Rightarrow> string \<Rightarrow> (htag \<times> element) list option"
  ext_stringify :: "entry list option \<Rightarrow> string"
  ext_html :: "node \<Rightarrow> string"

definition ncx_head :: "config \<Rightarrow> string" where
  \<open>ncx_head config =
     ''<?xml version="1.0" encoding="'' @ cfg_charset config @ ''"?>'' @
     [CHR 0x0A] @ ''<ncx xmlns="http://www.daisy.org/z3986/2005/ncx/" version="2005-1">'' @
     [CHR 0x0A] @ ''  <head>'' @
     [CHR 0x0A] @ ''    <meta name="dtb:uid" content="'' @ cfg_identifier config @ ''" />'' @
     [CHR 0x0A] @ ''    <meta name="dtb:depth" content="'' @ show_nat (cfg_depth config) @ ''" />'' @
     [CHR 0x0A] @ ''  </head>'' @
     [CHR 0x0A] @ ''  <docTitle>'' @
     [CHR 0x0A] @ ''    <text>'' @ cfg_title config @ ''</text>'' @
     [CHR 0x0A] @ ''  </docTitle>'' @
     [CHR 0x0A] @ ''  ''\<close>

definition xhtml_head :: "config \<Rightarrow> string" where
  \<open>xhtml_head config =
     ''<?xml version="1.0" encoding="'' @ cfg_charset config @ ''"?>'' @
     [CHR 0x0A] @ ''<html xmlns="http://www.w3.org/1999/xhtml" xmlns:epub="http://www.idpf.org/2007/ops">'' @
     [CHR 0x0A] @ ''<head>'' @
     [CHR 0x0A] @ ''  <meta charset="'' @ cfg_charset config @ ''" />'' @
     [CHR 0x0A] @ ''  <title>'' @ cfg_title config @ ''</title>'' @
     [CHR 0x0A] @ ''  <style type="text/css"> nav ol { list-style-type: none; } </style>'' @
     [CHR 0x0A] @ ''</head>'' @
     [CHR 0x0A] @ ''<body>'' @
     [CHR 0x0A]\<close>

text \<open>\<^verbatim>\<open>pages || parseHeadingsSync(...)\<close>: an array, even an empty one, is truthy.\<close>

definition pages_or_parse :: "externals \<Rightarrow> config \<Rightarrow> page list option \<Rightarrow> error + page list" where
  "pages_or_parse ext config pages =
     (case pages of
        Some ps \<Rightarrow> Inr ps
      | None \<Rightarrow>
          parseHeadingsSync (ext_load ext) (cfg_basedir config) (cfg_spine config)
            (cfg_keepAllHeadings config))"

text \<open>\<^verbatim>\<open>format || config.format\<close>.\<close>

definition chosen_format :: "config \<Rightarrow> string option \<Rightarrow> string option" where
  "chosen_format config fmt = (if truthy fmt then fmt else cfg_format config)"

text \<open>The result is what is written with \<^verbatim>\<open>console.error\<close>, and the string
  returned or the exception thrown.\<close>

definition buildToC ::
  "externals \<Rightarrow> config \<Rightarrow> string option \<Rightarrow> page list option
   \<Rightarrow> diagnostic list \<times> (error + string)" where
  "buildToC ext config fmt pages0 =
     (case pages_or_parse ext config pages0 of
        Inl e \<Rightarrow> ([], Inl e)
      | Inr pages \<Rightarrow>
          (let f = chosen_format config fmt in
           if f = Some ''txt'' then
             ([], Inr (buildToC_txt pages (cfg_depth config)))
           else if f = Some ''json'' then
             (json_diagnostics pages (cfg_depth config) (cfg_strict config),
              and_then (buildToC_json pages (cfg_depth config) (cfg_strict config))
                (\<lambda>t. Inr (ext_stringify ext t)))
           else if f = Some ''ncx'' then
             ([], and_then (buildToC_ncx (ext_html ext) pages (cfg_depth config))
                    (\<lambda>body. Inr (ncx_head config @ body @ [CHR 0x0A] @ ''</ncx>'')))
           else if f = Some ''xhtml'' then
             ([], and_then (buildToC_xhtml (ext_html ext) pages (cfg_depth config))
                    (\<lambda>body. Inr (xhtml_head config @ body @
                                   [CHR 0x0A] @ ''</body>'' @ [CHR 0x0A] @ ''</html>'')))
           else ([UnsupportedFormat (cfg_format config)], Inr [])))"

section \<open>Paths to the open end of a document\<close>

text \<open>
  A path along which everything to the right is text: nodes appended at its end come last
  in document order. For an element of the name \<open>name\<close> the path leaves the first
  \<open>m\<close> children, from which the label is read, untouched.
\<close>

definition is_text :: "node \<Rightarrow> bool" where
  "is_text n = (case n of Text t \<Rightarrow> True | Tag m a ks \<Rightarrow> False)"









section \<open>The four views side by side\<close>

text \<open>
  What each renderer lists, read back from what it builds: the entries in order, each
  with its depth and its title (\<open>None\<close> for a placeholder). For the flat renderer the
  depth is the indentation of the line, for the nested builder the nesting in the tree,
  for the markup renderers the nesting of list items and of navigation points.
\<close>

text \<open>Reading the output of the flat renderer: the string is cut at the line feeds;
  what stands before the first and after the last is dropped (both are empty in an
  output of \<^verbatim>\<open>buildToC_txt\<close>); in each line, after the four blanks of
  \<^verbatim>\<open>indent\<close>, the pairs of blanks are counted, and the rest is the title.\<close>

fun split_lines :: "string \<Rightarrow> string list" where
  "split_lines [] = [[]]"
| "split_lines (c # cs) =
     (if c = CHR 0x0A then [] # split_lines cs
      else (case split_lines cs of [] \<Rightarrow> [[c]] | l # ls \<Rightarrow> (c # l) # ls))"










section \<open>Paths and in-place updates\<close>

lemma each_heading_append:
  "each_heading depth strict (xs @ ys) s =
     (case each_heading depth strict xs s of
        (d, Inl e) \<Rightarrow> (d, Inl e)
      | (d, Inr s') \<Rightarrow> (case each_heading depth strict ys s' of (d', r) \<Rightarrow> (d @ d', r)))"
  by (induction xs arbitrary: s) (auto split: prod.splits sum.splits)

lemma each_page_concat:
  "each_page depth strict pages s = each_heading depth strict (concat (map headings pages)) s"
  by (induction pages arbitrary: s) (auto simp: each_heading_append split: prod.splits sum.splits)

lemmas json_ops = and_then_def children_length_def last_child_def reset_children_def push_def
  add_heading_def set_children_def nest_round_def


lemma entries_below: "entries d e = (d, e_title e, e_href e) # below (Suc d) e"
  by (cases e) (simp add: below_def)

lemma modify_keeps_label:
  assumes "\<And>x. e_title (f x) = e_title x" "\<And>x. e_href (f x) = e_href x"
  shows "e_title (modify f p e) = e_title e \<and> e_href (modify f p e) = e_href e"
  by (cases p) (auto simp: assms set_children_def split: option.splits)

lemma rightmost_lookup: "rightmost root p \<Longrightarrow> \<exists>n. lookup root p = Some n"
  by (induction p arbitrary: root) (auto split: option.splits simp: last_conv_nth)

lemma lookup_modify: "lookup root p = Some n \<Longrightarrow> lookup (modify f p root) p = Some (f n)"
  by (induction p arbitrary: root) (auto split: option.splits if_splits simp: set_children_def)

lemma rightmost_modify: "rightmost root p \<Longrightarrow> rightmost (modify f p root) p"
proof (induction p arbitrary: root)
  case Nil
  then show ?case by simp
next
  case (Cons i p)
  then obtain cs where cs: "children root = Some cs" "cs \<noteq> []" "i = length cs - 1"
    "rightmost (last cs) p"
    by (auto split: option.splits)
  have "last (cs[i := modify f p (cs ! i)]) = modify f p (last cs)"
    using cs by (simp add: last_conv_nth)
  then show ?case using cs Cons.IH[of "last cs"] by (simp add: set_children_def)
qed

lemma modify_rightmost_below:
  assumes "rightmost root p" "lookup root p = Some n"
    and "\<And>x. e_title (f x) = e_title x" "\<And>x. e_href (f x) = e_href x"
    and "below (d + length p) (f n) = below (d + length p) n @ xs"
  shows "below d (modify f p root) = below d root @ xs"
  using assms(1,2,5)
proof (induction p arbitrary: root d)
  case Nil
  then show ?case by simp
next
  case (Cons i p)
  from Cons.prems(1) obtain cs where cs: "children root = Some cs" "cs \<noteq> []" "i = length cs - 1"
    "rightmost (last cs) p"
    by (auto split: option.splits)
  have li: "cs ! i = last cs" using cs by (simp add: last_conv_nth)
  have lk: "lookup (last cs) p = Some n" using Cons.prems(2) cs li by simp
  have "below (Suc d) (modify f p (last cs)) = below (Suc d) (last cs) @ xs"
    using Cons.IH[OF cs(4) lk, of "Suc d"] Cons.prems(3) by simp
  then have e: "entries d (modify f p (last cs)) = entries d (last cs) @ xs"
    by (simp add: entries_below modify_keeps_label[OF assms(3,4)])
  have upd: "cs[i := modify f p (cs ! i)] = butlast cs @ [modify f p (last cs)]"
    using cs li by (metis append_butlast_last_id length_butlast list_update_length)
  have "concat (map (entries d) cs) = concat (map (entries d) (butlast cs)) @ entries d (last cs)"
    using cs(2) by (metis (no_types) append_butlast_last_id concat.simps concat_append list.simps(8,9) map_append append_Nil2)
  then show ?case using cs upd e by (simp add: below_def set_children_def)
qed

lemma lookup_append:
  "lookup root (p @ q) = (case lookup root p of None \<Rightarrow> None | Some n \<Rightarrow> lookup n q)"
  by (induction p arbitrary: root) (auto split: option.splits)

lemma rightmost_append:
  "rightmost root (p @ q) =
     (rightmost root p \<and> (case lookup root p of None \<Rightarrow> False | Some n \<Rightarrow> rightmost n q))"
  by (induction p arbitrary: root) (auto split: option.splits simp: last_conv_nth)

lemma rightmost_snoc:
  "lookup root p = Some n \<Longrightarrow> children n = Some ks \<Longrightarrow>
   rightmost root (p @ [i]) = (rightmost root p \<and> ks \<noteq> [] \<and> i = length ks - 1)"
  by (simp add: rightmost_append)

lemma lookup_snoc:
  "lookup root p = Some n \<Longrightarrow> children n = Some ks \<Longrightarrow> ks \<noteq> [] \<Longrightarrow>
   lookup root (p @ [length ks - 1]) = Some (last ks)"
  by (simp add: lookup_append last_conv_nth)

lemma last_child_ok:
  "lookup root p = Some n \<Longrightarrow> children n = Some ks \<Longrightarrow>
   last_child root (Some p) = Inr (if ks = [] then None else Some (p @ [length ks - 1]))"
  by (simp add: last_child_def children_length_def and_then_def)

lemma ascend_prefix:
  assumes "rightmost root (p @ q)"
  shows "k \<le> length q \<Longrightarrow> ascend root k (Some p) = Inr (Some (p @ take k q))"
  using assms
proof (induction k arbitrary: p q)
  case 0
  then show ?case by simp
next
  case (Suc k)
  then obtain i q' where q: "q = i # q'" by (cases q) auto
  from Suc.prems(2) have rp: "rightmost root p"
    and rq: "case lookup root p of None \<Rightarrow> False | Some n \<Rightarrow> rightmost n q"
    by (simp_all add: rightmost_append)
  then obtain n where n: "lookup root p = Some n" "rightmost n (i # q')"
    using q by (auto split: option.splits)
  then obtain ks where ks: "children n = Some ks" "ks \<noteq> []" "i = length ks - 1"
    by (auto split: option.splits)
  have "last_child root (Some p) = Inr (Some (p @ [i]))"
    using last_child_ok[OF n(1) ks(1)] ks by simp
  moreover have "ascend root k (Some (p @ [i])) = Inr (Some ((p @ [i]) @ take k q'))"
    using Suc.IH[of q' "p @ [i]"] Suc.prems q by simp
  ultimately show ?case using q by (simp add: and_then_def)
qed

lemma push_ok:
  "lookup root p = Some n \<Longrightarrow> children n = Some ks \<Longrightarrow>
   push root (Some p) x = Inr (modify (set_children (Some (ks @ [x]))) p root)"
  by (simp add: push_def)

lemma set_children_label [simp]:
  "e_title (set_children cs e) = e_title e" "e_href (set_children cs e) = e_href e"
  "children (set_children cs e) = cs"
  by (simp_all add: set_children_def)

text \<open>Appending x to the children of the node at a rightmost path.\<close>
lemma push_facts:
  fixes x :: entry
  assumes "rightmost root p" "lookup root p = Some n" "children n = Some ks"
  defines "root' \<equiv> modify (set_children (Some (ks @ [x]))) p root"
  shows "push root (Some p) x = Inr root'"
    and "rightmost root' p"
    and "lookup root' p = Some (set_children (Some (ks @ [x])) n)"
    and "below 0 root' = below 0 root @ entries (length p) x"
proof -
  show "push root (Some p) x = Inr root'" using assms by (simp add: push_ok)
  show "rightmost root' p" using assms rightmost_modify by simp
  show "lookup root' p = Some (set_children (Some (ks @ [x])) n)"
    using assms lookup_modify by simp
  have "below (0 + length p) (set_children (Some (ks @ [x])) n)
          = below (0 + length p) n @ entries (length p) x"
    using assms(3) by (simp add: below_def)
  then show "below 0 root' = below 0 root @ entries (length p) x"
    using modify_rightmost_below[of root p n "set_children (Some (ks @ [x]))" 0 "entries (length p) x"]
      assms(1,2) by (simp add: root'_def)
qed

text \<open>Giving an empty array to a leaf at a rightmost path.\<close>
lemma reset_facts:
  assumes "rightmost root p" "lookup root p = Some n" "children n = None"
  defines "root' \<equiv> modify (set_children (Some [])) p root"
  shows "reset_children root (Some p) = Inr root'"
    and "rightmost root' p"
    and "lookup root' p = Some (set_children (Some []) n)"
    and "below 0 root' = below 0 root"
proof -
  show "reset_children root (Some p) = Inr root'" using assms by (simp add: reset_children_def)
  show "rightmost root' p" using assms rightmost_modify by simp
  show "lookup root' p = Some (set_children (Some []) n)"
    using assms lookup_modify by simp
  have "below (0 + length p) (set_children (Some []) n) = below (0 + length p) n @ []"
    using assms(3) by (simp add: below_def)
  then show "below 0 root' = below 0 root"
    using modify_rightmost_below[of root p n "set_children (Some [])" 0 "[]"]
      assms(1,2) by (simp add: root'_def)
qed

lemma nest_round_facts:
  assumes "rightmost root p" "lookup root p = Some n" "children n = Some ks"
    and "ks \<noteq> [] \<longrightarrow> children (last ks) = None"
  shows "\<exists>root' n'. nest_round (root, Some p) = Inr (root', Some (p @ [length ks - 1]))
           \<and> rightmost root' (p @ [length ks - 1])
           \<and> lookup root' (p @ [length ks - 1]) = Some n'
           \<and> children n' = Some []
           \<and> below 0 root' = below 0 root @ (if ks = [] then [placeholder (length p)] else [])"
proof -
  let ?x = "Entry None None None"
  define root1 where "root1 = (if ks = [] then modify (set_children (Some (ks @ [?x]))) p root else root)"
  define ks1 where "ks1 = (if ks = [] then [?x] else ks)"
  define n1 where "n1 = (if ks = [] then set_children (Some (ks @ [?x])) n else n)"
  have len: "children_length root (Some p) = Inr (length ks)"
    using assms by (simp add: children_length_def)
  have push1: "(if length ks = 0 then push root (Some p) ?x else Inr root) = Inr root1"
    using push_facts(1)[OF assms(1-3)] by (simp add: root1_def)
  have r1: "rightmost root1 p" "lookup root1 p = Some n1" "children n1 = Some ks1"
    "ks1 \<noteq> []" "children (last ks1) = None" "length ks1 - 1 = length ks - 1"
    using push_facts(2,3)[OF assms(1-3), of ?x] assms
    by (auto simp: root1_def n1_def ks1_def)
  have b1: "below 0 root1 = below 0 root @ (if ks = [] then [placeholder (length p)] else [])"
    using push_facts(4)[OF assms(1-3), of ?x] by (auto simp: root1_def)
  define q where "q = p @ [length ks - 1]"
  have lc: "last_child root1 (Some p) = Inr (Some q)"
    using last_child_ok[OF r1(2,3)] r1(4,6) by (simp add: q_def)
  have rq: "rightmost root1 q" "lookup root1 q = Some (last ks1)"
    using r1 rightmost_snoc[OF r1(2,3)] lookup_snoc[OF r1(2,3)] by (simp_all add: q_def)
  define root2 where "root2 = modify (set_children (Some [])) q root1"
  note rf = reset_facts[OF rq r1(5)]
  have "nest_round (root, Some p) = Inr (root2, Some q)"
    using len push1 lc rf(1) by (simp add: nest_round_def and_then_def root2_def)
  then show ?thesis
    using rf(2,3,4) b1 unfolding q_def root2_def by auto
qed

lemma nest_facts:
  assumes "rightmost root p" "lookup root p = Some n" "children n = Some []"
  shows "\<exists>root' p' n'. nest k (root, Some p) = Inr (root', Some p')
           \<and> length p' = length p + k
           \<and> rightmost root' p'
           \<and> lookup root' p' = Some n'
           \<and> children n' = Some []
           \<and> below 0 root' = below 0 root @ map placeholder [length p ..< length p + k]"
  using assms
proof (induction k arbitrary: root p n)
  case 0
  then show ?case by simp
next
  case (Suc k)
  from nest_round_facts[OF Suc.prems(1,2,3)] obtain root1 n1 where
    r1: "nest_round (root, Some p) = Inr (root1, Some (p @ [0]))"
      "rightmost root1 (p @ [0])" "lookup root1 (p @ [0]) = Some n1" "children n1 = Some []"
      "below 0 root1 = below 0 root @ [placeholder (length p)]"
    by auto
  from Suc.IH[OF r1(2,3,4)] obtain root' p' n' where
    r2: "nest k (root1, Some (p @ [0])) = Inr (root', Some p')"
      "length p' = length (p @ [0]) + k" "rightmost root' p'" "lookup root' p' = Some n'"
      "children n' = Some []"
      "below 0 root' = below 0 root1 @ map placeholder [length (p @ [0]) ..< length (p @ [0]) + k]"
    by blast
  have "[length p ..< length p + Suc k] = length p # [Suc (length p) ..< Suc (length p) + k]"
    by (simp add: upt_rec)
  then have "below 0 root' = below 0 root @ map placeholder [length p ..< length p + Suc k]"
    using r1(5) r2(6) by simp
  then show ?case using r1(1) r2(1-5) by (simp add: and_then_def)
qed

lemma wf_init: "wf_state init_builder"
  by (simp add: wf_state_def init_builder_def)

lemma place_diagnostics:
  "fst (place strict h s) =
     (if currentLevel s + 1 < level h then [NonContinuous (level h + 1) (title h)] else [])"
  by (simp add: place_def Let_def)

lemma place_fails:
  "level h = 1 \<Longrightarrow> snd (place strict h init_builder) = Inl TypeError"
  by (simp add: place_def init_builder_def last_child_def children_length_def and_then_def
      reset_children_def)

lemma place_dropped:
  "currentLevel s + 1 < level h \<Longrightarrow> snd (place True h s) = Inr s"
  by (simp add: place_def Let_def)

lemma wf_after_push:
  assumes "rightmost root p" "lookup root p = Some n" "children n = Some ks"
    and "length p = level h"
  shows "\<exists>s'. add_heading (Entry (Some (title h)) (href h) None) (level h) root (Some p) = Inr s'
           \<and> wf_state s' \<and> s' \<noteq> init_builder \<and> currentLevel s' = level h
           \<and> below 0 (toc s') = below 0 root @ [listed h]"
proof -
  let ?t = "Entry (Some (title h)) (href h) None"
  let ?root' = "modify (set_children (Some (ks @ [?t]))) p root"
  let ?s' = "\<lparr>toc = ?root', current = Some p, currentLevel = level h\<rparr>"
  note pf = push_facts[OF assms(1-3), of ?t]
  have run: "add_heading ?t (level h) root (Some p) = Inr ?s'"
    using pf(1) by (simp add: add_heading_def and_then_def)
  have b: "below 0 (toc ?s') = below 0 root @ [listed h]"
    using pf(4) assms(4) by (simp add: listed_def below_def)
  have wf: "wf_state ?s'"
    unfolding wf_state_def using pf(2,3) assms(4) by simp
  have i: "below 0 (toc init_builder) = []" by (simp add: init_builder_def below_def)
  have "?s' \<noteq> init_builder"
  proof
    assume e: "?s' = init_builder"
    have "below 0 (toc ?s') = below 0 (toc init_builder)" unfolding e ..
    with b i show False by simp
  qed
  then show ?thesis using run b wf by (intro exI[of _ ?s']) simp
qed

lemma place_placed:
  assumes "wf_state s"
    and "\<not> (s = init_builder \<and> level h = 1)"
    and "\<not> (currentLevel s + 1 < level h \<and> strict)"
  shows "\<exists>s'. snd (place strict h s) = Inr s' \<and> wf_state s' \<and> s' \<noteq> init_builder
           \<and> currentLevel s' = level h
           \<and> below 0 (toc s') = below 0 (toc s) @ gap s h @ [listed h]"
proof -
  from assms(1) obtain p n ks where
    w: "current s = Some p" "length p = currentLevel s" "rightmost (toc s) p"
      "lookup (toc s) p = Some n" "children n = Some ks"
      "ks = [] \<longrightarrow> s = init_builder" "ks \<noteq> [] \<longrightarrow> children (last ks) = None"
    unfolding wf_state_def by blast
  have init_iff: "s = init_builder \<longleftrightarrow> ks = []"
    using w by (auto simp: init_builder_def)
  let ?t = "Entry (Some (title h)) (href h) None"
  consider (ascend) "level h < currentLevel s"
    | (descend) "level h = currentLevel s + 1"
    | (jump) "currentLevel s + 1 < level h"
    | (sibling) "level h = currentLevel s"
    by linarith
  then show ?thesis
  proof cases
    case ascend
    define q where "q = take (level h) p"
    have pq: "p = q @ drop (level h) p" and lq: "length q = level h"
      and dne: "drop (level h) p \<noteq> []"
      using ascend w(2) by (simp_all add: q_def)
    have asc: "ascend (toc s) (level h) (Some []) = Inr (Some q)"
      using ascend_prefix[of "toc s" "[]" p "level h"] w(2,3) ascend by (simp add: q_def)
    have rq: "rightmost (toc s) q"
      and rest: "case lookup (toc s) q of None \<Rightarrow> False | Some m \<Rightarrow> rightmost m (drop (level h) p)"
      using w(3) rightmost_append[of "toc s" q "drop (level h) p"] pq by simp_all
    then obtain m where m: "lookup (toc s) q = Some m" "rightmost m (drop (level h) p)"
      by (auto split: option.splits)
    then obtain ms where ms: "children m = Some ms"
      using dne by (cases "drop (level h) p") (auto split: option.splits)
    from wf_after_push[OF rq m(1) ms lq] obtain s' where
      "add_heading ?t (level h) (toc s) (Some q) = Inr s'" "wf_state s'" "s' \<noteq> init_builder"
      "currentLevel s' = level h" "below 0 (toc s') = below 0 (toc s) @ [listed h]"
      by blast
    then show ?thesis using ascend asc
      by (intro exI[of _ s']) (simp add: place_def and_then_def gap_def)
  next
    case descend
    then have ne: "ks \<noteq> []" using assms(2) init_iff w(2) by (auto simp: init_builder_def)
    define q where "q = p @ [length ks - 1]"
    have lc: "last_child (toc s) (current s) = Inr (Some q)"
      using last_child_ok[OF w(4,5)] ne w(1) by (simp add: q_def)
    have rq: "rightmost (toc s) q" "lookup (toc s) q = Some (last ks)"
      using ne w rightmost_snoc[OF w(4,5)] lookup_snoc[OF w(4,5)] by (simp_all add: q_def)
    have leaf: "children (last ks) = None" using ne w(7) by simp
    note rf = reset_facts[OF rq leaf]
    have lq: "length q = level h" using descend w(2) by (simp add: q_def)
    from wf_after_push[OF rf(2,3) _ lq] obtain s' where
      s': "add_heading ?t (level h) (modify (set_children (Some [])) q (toc s)) (Some q) = Inr s'"
      "wf_state s'" "s' \<noteq> init_builder"
      "currentLevel s' = level h"
      "below 0 (toc s') = below 0 (modify (set_children (Some [])) q (toc s)) @ [listed h]"
      by auto
    then show ?thesis using descend lc rf(1,4)
      by (intro exI[of _ s']) (simp add: place_def and_then_def gap_def)
  next
    case jump
    then have lenient: "\<not> strict" using assms(3) by simp
    define k where "k = level h - currentLevel s - 2"
    have k: "level h - currentLevel s = Suc (Suc k)" "level h = currentLevel s + 1 + Suc k"
      using jump by (simp_all add: k_def)
    from nest_round_facts[OF w(3,4,5,7)] obtain root1 n1 where
      r1: "nest_round (toc s, Some p) = Inr (root1, Some (p @ [length ks - 1]))"
        "rightmost root1 (p @ [length ks - 1])"
        "lookup root1 (p @ [length ks - 1]) = Some n1" "children n1 = Some []"
        "below 0 root1 = below 0 (toc s) @ (if ks = [] then [placeholder (length p)] else [])"
      by blast
    from nest_facts[OF r1(2,3,4), of "Suc k"] obtain root2 p2 n2 where
      r2: "nest (Suc k) (root1, Some (p @ [length ks - 1])) = Inr (root2, Some p2)"
        "length p2 = length (p @ [length ks - 1]) + Suc k" "rightmost root2 p2"
        "lookup root2 p2 = Some n2" "children n2 = Some []"
        "below 0 root2 = below 0 root1 @
           map placeholder [length (p @ [length ks - 1]) ..< length (p @ [length ks - 1]) + Suc k]"
      by blast
    have lp2: "length p2 = level h" using r2(2) k(2) w(2) by simp
    have nst: "nest (level h - currentLevel s) (toc s, current s) = Inr (root2, Some p2)"
      using r1(1) r2(1) k(1) w(1) by (simp add: and_then_def)
    have "[0 ..< Suc (Suc k)] = 0 # [Suc 0 ..< Suc (Suc k)]" by (simp add: upt_rec)
    then have g: "below 0 root2 = below 0 (toc s) @ gap s h"
      using r1(5) r2(6) jump k(2) w(2) init_iff
      by (auto simp: gap_def init_builder_def)
    from wf_after_push[OF r2(3,4,5) lp2] obtain s' where
      "add_heading ?t (level h) root2 (Some p2) = Inr s'" "wf_state s'" "s' \<noteq> init_builder"
      "currentLevel s' = level h" "below 0 (toc s') = below 0 root2 @ [listed h]"
      by blast
    then show ?thesis using jump lenient nst g
      by (intro exI[of _ s']) (simp add: place_def and_then_def)
  next
    case sibling
    have lp: "length p = level h" using sibling w(2) by simp
    from wf_after_push[OF w(3,4,5) lp] obtain s' where
      "add_heading ?t (level h) (toc s) (Some p) = Inr s'" "wf_state s'" "s' \<noteq> init_builder"
      "currentLevel s' = level h" "below 0 (toc s') = below 0 (toc s) @ [listed h]"
      by blast
    then show ?thesis using sibling w(1)
      by (intro exI[of _ s']) (simp add: place_def and_then_def gap_def)
  qed
qed

section \<open>The builder lists what the model lists\<close>

lemma each_heading_skip:
  "each_heading depth strict hs s = each_heading depth strict (filter (\<lambda>h. level h < depth) hs) s"
  by (induction hs arbitrary: s) (auto split: prod.splits sum.splits)

lemma snd_each_heading_Cons:
  "level h < depth \<Longrightarrow>
   snd (each_heading depth strict (h # hs) s) =
     (case snd (place strict h s) of
        Inl e \<Rightarrow> Inl e
      | Inr s' \<Rightarrow> snd (each_heading depth strict hs s'))"
  by (auto split: prod.splits sum.splits)

lemma fst_each_heading_Cons:
  "level h < depth \<Longrightarrow>
   fst (each_heading depth strict (h # hs) s) =
     fst (place strict h s) @
     (case snd (place strict h s) of
        Inl e \<Rightarrow> []
      | Inr s' \<Rightarrow> fst (each_heading depth strict hs s'))"
  by (auto split: prod.splits sum.splits)

lemma wf_init_level: "wf_state s \<Longrightarrow> s = init_builder \<Longrightarrow> currentLevel s = 0"
  by (simp add: init_builder_def)

lemma each_heading_flat:
  assumes "wf_state s" "\<forall>h \<in> set hs. level h < depth"
  shows "case flat_model strict (s = init_builder) (currentLevel s) hs of
           None \<Rightarrow> snd (each_heading depth strict hs s) = Inl TypeError
         | Some xs \<Rightarrow>
             (\<exists>s'. snd (each_heading depth strict hs s) = Inr s' \<and> wf_state s'
                 \<and> below 0 (toc s') = below 0 (toc s) @ xs)"
  using assms
proof (induction hs arbitrary: s)
  case Nil
  then show ?case by simp
next
  case (Cons h hs)
  then have inr: "level h < depth" and rest: "\<forall>h \<in> set hs. level h < depth" by simp_all
  note sn = snd_each_heading_Cons[OF inr, of strict hs s]
  consider (fail) "s = init_builder" "level h = 1"
    | (drop) "currentLevel s + 1 < level h" "strict"
    | (placed) "\<not> (s = init_builder \<and> level h = 1)" "\<not> (currentLevel s + 1 < level h \<and> strict)"
    by blast
  then show ?case
  proof cases
    case fail
    then show ?thesis using sn place_fails[of h strict] by (simp add: init_builder_def del: each_heading.simps)
  next
    case drop
    then have "snd (place strict h s) = Inr s" using place_dropped by simp
    then have e: "snd (each_heading depth strict (h # hs) s) = snd (each_heading depth strict hs s)"
      using sn by (simp del: each_heading.simps)
    have m: "flat_model strict (s = init_builder) (currentLevel s) (h # hs) =
               flat_model strict (s = init_builder) (currentLevel s) hs"
      using drop by simp
    show ?thesis unfolding e m by (rule Cons.IH[OF Cons.prems(1) rest])
  next
    case placed
    from place_placed[OF Cons.prems(1) placed] obtain s' where
      s': "snd (place strict h s) = Inr s'" "wf_state s'" "s' \<noteq> init_builder"
        "currentLevel s' = level h" "below 0 (toc s') = below 0 (toc s) @ gap s h @ [listed h]"
      by blast
    have m: "flat_model strict (s = init_builder) (currentLevel s) (h # hs) =
               map_option (\<lambda>r. gap s h @ listed h # r) (flat_model strict False (level h) hs)"
      using placed by (auto simp: gap_def)
    show ?thesis
    proof (cases "flat_model strict False (level h) hs")
      case None
      then show ?thesis using m sn s' Cons.IH[OF s'(2) rest] by (simp del: each_heading.simps flat_model.simps)
    next
      case (Some xs)
      then show ?thesis using m sn s' Cons.IH[OF s'(2) rest] by (auto simp del: each_heading.simps flat_model.simps)
    qed
  qed
qed

lemma wf_children: "wf_state s \<Longrightarrow> \<exists>cs. children (toc s) = Some cs"
proof -
  assume "wf_state s"
  then obtain p n ks where w: "rightmost (toc s) p" "lookup (toc s) p = Some n" "children n = Some ks"
    unfolding wf_state_def by blast
  then show ?thesis by (cases p) (auto split: option.splits)
qed

lemma below_forest: "children e = Some cs \<Longrightarrow> below 0 e = forest cs"
  by (simp add: below_def forest_def)

lemma run_json_stream:
  "run_json pages depth strict = each_heading depth strict (in_range depth (stream pages)) init_builder"
  unfolding run_json_def each_page_concat stream_def in_range_def
  by (rule each_heading_skip)

lemma json_flat:
  "case flat_model strict True 0 (in_range depth (stream pages)) of
     None \<Rightarrow> buildToC_json pages depth strict = Inl TypeError
   | Some xs \<Rightarrow>
       (\<exists>s tree. snd (run_json pages depth strict) = Inr s \<and> wf_state s
          \<and> buildToC_json pages depth strict = Inr (Some tree) \<and> forest tree = xs)"
proof -
  let ?hs = "in_range depth (stream pages)"
  have r: "\<forall>h \<in> set ?hs. level h < depth" by (simp add: in_range_def)
  have i: "currentLevel init_builder = 0" "below 0 (toc init_builder) = []"
    by (simp_all add: init_builder_def below_def)
  note f = each_heading_flat[OF wf_init r, of strict]
  show ?thesis
  proof (cases "flat_model strict True 0 ?hs")
    case None
    then show ?thesis using f i
      by (simp add: buildToC_json_def run_json_stream and_then_def)
  next
    case (Some xs)
    then obtain s where s: "snd (each_heading depth strict ?hs init_builder) = Inr s"
      "wf_state s" "below 0 (toc s) = xs"
      using f i by auto
    from wf_children[OF s(2)] obtain tree where t: "children (toc s) = Some tree" by blast
    then have "forest tree = xs" using s(3) below_forest by simp
    then show ?thesis using Some s t
      by (simp add: buildToC_json_def run_json_stream and_then_def)
  qed
qed

lemma run_json_wf: "snd (run_json pages depth strict) = Inr s \<Longrightarrow> wf_state s"
  using json_flat[where strict = strict and depth = depth and pages = pages]
  by (auto simp: buildToC_json_def and_then_def split: option.splits)

lemma flat_model_lenient:
  "flat_model False fresh c hs = Some xs \<Longrightarrow>
   filter (\<lambda>x. fst (snd x) \<noteq> None) xs = map listed hs"
  by (induction hs arbitrary: fresh c xs) (auto simp: listed_def split: if_splits)

lemma flat_model_strict:
  "flat_model True fresh c hs = Some xs \<Longrightarrow> xs = map listed (kept_strict c hs)"
  by (induction hs arbitrary: fresh c xs) (auto split: if_splits)

lemma gentle_lower: "gentle c ls \<Longrightarrow> \<forall>x \<in> set ls. c \<le> x"
  by (induction ls arbitrary: c) fastforce+

lemma gentle_filter: "gentle c ls \<Longrightarrow> gentle c (filter (\<lambda>l. l < d) ls)"
proof (induction ls arbitrary: c)
  case Nil
  then show ?case by simp
next
  case (Cons l ls)
  show ?case
  proof (cases "l < d")
    case True
    then show ?thesis using Cons by simp
  next
    case False
    have "\<forall>x \<in> set ls. l \<le> x" using Cons.prems gentle_lower[of l ls] by simp
    then have "filter (\<lambda>l. l < d) ls = []" using False by (auto simp: filter_empty_conv)
    then show ?thesis using False by simp
  qed
qed

lemma gentle_in_range:
  "gentle c (map level hs) \<Longrightarrow> gentle c (map level (in_range depth hs))"
  using gentle_filter[of c "map level hs" depth]
  by (simp add: in_range_def filter_map comp_def)

lemma flat_model_gentle:
  "gentle c (map level hs) \<Longrightarrow>
   flat_model strict fresh c hs =
     (if fresh \<and> (case hs of [] \<Rightarrow> False | h # _ \<Rightarrow> level h = 1) then None
      else Some (map listed hs))"
proof (induction hs arbitrary: fresh c)
  case Nil
  then show ?case by simp
next
  case (Cons h hs)
  then have "gentle (level h) (map level hs)" and "\<not> c + 1 < level h" by simp_all
  then show ?case using Cons.IH[of "level h" False] by simp
qed

lemma gentle_no_diagnostic:
  assumes "wf_state s" "gentle (currentLevel s) (map level hs)" "\<forall>h \<in> set hs. level h < depth"
  shows "fst (each_heading depth strict hs s) = []"
  using assms
proof (induction hs arbitrary: s)
  case Nil
  then show ?case by simp
next
  case (Cons h hs)
  then have inr: "level h < depth" and rest: "\<forall>h \<in> set hs. level h < depth"
    and g: "gentle (level h) (map level hs)" and nj: "\<not> currentLevel s + 1 < level h"
    by simp_all
  note fs = fst_each_heading_Cons[OF inr, of strict hs s]
  have d: "fst (place strict h s) = []" using nj place_diagnostics by simp
  show ?case
  proof (cases "s = init_builder \<and> level h = 1")
    case True
    then have "snd (place strict h s) = Inl TypeError" using place_fails by simp
    then show ?thesis using fs d by (simp del: each_heading.simps)
  next
    case False
    from place_placed[OF Cons.prems(1) False, of strict] nj obtain s' where
      s': "snd (place strict h s) = Inr s'" "wf_state s'" "currentLevel s' = level h"
      by auto
    then have "fst (each_heading depth strict hs s') = []"
      using Cons.IH[of s'] g rest by simp
    then show ?thesis using fs d s'(1) by (simp del: each_heading.simps)
  qed
qed

lemma find_filter:
  "find P xs = Some x \<Longrightarrow> \<exists>rest. filter P xs = x # rest"
  by (induction xs) (auto split: if_splits)

lemma ascend_last_path:
  "lookup root p = Some e \<Longrightarrow>
   (ascend root n (Some p) = Inr (Some q)) = (map_option ((@) p) (last_path e n) = Some q)"
proof (induction n arbitrary: p e)
  case 0
  then show ?case by auto
next
  case (Suc n)
  show ?case
  proof (cases "children e")
    case None
    then show ?thesis using Suc.prems
      by (simp add: last_child_def children_length_def and_then_def)
  next
    case (Some cs)
    show ?thesis
    proof (cases "cs = []")
      case True
      then show ?thesis using Suc.prems Some
        by (cases n) (simp_all add: last_child_def children_length_def and_then_def)
    next
      case False
      have lc: "last_child root (Some p) = Inr (Some (p @ [length cs - 1]))"
        using last_child_ok[OF Suc.prems Some] False by simp
      have lk: "lookup root (p @ [length cs - 1]) = Some (last cs)"
        using lookup_snoc[OF Suc.prems Some False] .
      from Suc.IH[OF lk] show ?thesis
        using lc Some False by (auto simp: and_then_def option.map_comp comp_def)
    qed
  qed
qed

lemma steps_ok_gentle:
  "steps_ok (map level hs) \<Longrightarrow> (case hs of [] \<Rightarrow> True | h # _ \<Rightarrow> level h \<le> 1) \<Longrightarrow>
   gentle 0 (map level hs)"
  by (cases hs) (simp_all add: steps_ok_def)


lemma buildToC_json_order:
  assumes "buildToC_json pages depth strict = Inr r"
  shows "\<exists>tree. r = Some tree
           \<and> (if strict
              then forest tree = map listed (kept_strict 0 (in_range depth (stream pages)))
              else filter (\<lambda>x. fst (snd x) \<noteq> None) (forest tree)
                     = map listed (in_range depth (stream pages)))"
proof -
  note j = json_flat[where strict = strict and depth = depth and pages = pages]
  obtain xs where xs: "flat_model strict True 0 (in_range depth (stream pages)) = Some xs"
    using j assms by (cases "flat_model strict True 0 (in_range depth (stream pages))") auto
  then obtain tree where t: "r = Some tree" "forest tree = xs" using j assms by auto
  show ?thesis
  proof (cases strict)
    case True
    then show ?thesis using flat_model_strict[of True 0 _ xs] xs t by auto
  next
    case False
    then show ?thesis using flat_model_lenient[of True 0 _ xs] xs t by auto
  qed
qed

section \<open>Anchor resolution walks the ancestors\<close>

lemma prev_text_shift: "prev_text q (a @ b) = a @ prev_text q b"
proof (induction q b arbitrary: a rule: prev_text.induct)
  case (1 b)
  then show ?case by simp
next
  case (2 t ss b)
  from 2[of a] show ?case by simp
next
  case (3 t ss b)
  from 3[of a] show ?case by simp
qed

lemma prev_text_append: "prev_text q acc = acc @ prev_text q []"
  using prev_text_shift[of q acc "[]"] by simp

lemma chain_hd: "chain e = x # xs \<Longrightarrow> x = e"
  by (cases e) simp

lemma chain_tl: "chain e = x # y # ys \<Longrightarrow> \<exists>p. parent e = Some p \<and> chain p = y # ys"
  by (cases e) (auto split: option.splits)

lemma walk_step:
  "walk (Some e) acc ident =
     (if acc \<noteq> [] then ident
      else if truthy (attr_id e) then attr_id e
      else walk (parent e) (acc @ before_text e) (attr_id e))"
  by (cases e) (simp add: before_text_def prev_text_append[symmetric])

lemma walk_finds:
  assumes "chain e = pre @ a # post" "\<forall>x \<in> set pre. \<not> truthy (attr_id x)" "truthy (attr_id a)"
    and "acc @ concat (map before_text pre) = []"
  shows "walk (Some e) acc ident = attr_id a"
  using assms
proof (induction pre arbitrary: e acc ident)
  case Nil
  then have "a = e" using chain_hd by auto
  then show ?case using Nil by (simp add: walk_step)
next
  case (Cons x pre)
  then have x: "x = e" using chain_hd by auto
  from Cons.prems(1) obtain p where p: "parent e = Some p" "chain p = pre @ a # post"
    using chain_tl[of e x] by (cases pre) auto
  have "walk (Some p) [] (attr_id e) = attr_id a"
    using Cons.IH[OF p(2)] Cons.prems by simp
  then show ?case using Cons.prems x p by (simp add: walk_step)
qed

lemma walk_gives_up:
  assumes "chain e = pre @ a # post" "\<forall>x \<in> set pre. \<not> truthy (attr_id x)"
    and "acc @ concat (map before_text pre) \<noteq> []" "\<not> truthy ident"
  shows "\<not> truthy (walk (Some e) acc ident)"
  using assms
proof (induction pre arbitrary: e acc ident)
  case Nil
  then show ?case by (simp add: walk_step)
next
  case (Cons x pre)
  then have x: "x = e" using chain_hd by auto
  from Cons.prems(1) obtain p where p: "parent e = Some p" "chain p = pre @ a # post"
    using chain_tl[of e x] by (cases pre) auto
  show ?case
  proof (cases "acc = []")
    case False
    then show ?thesis using Cons.prems by (simp add: walk_step)
  next
    case True
    have "\<not> truthy (walk (Some p) (before_text e) (attr_id e))"
      using Cons.IH[OF p(2), of "before_text e" "attr_id e"] Cons.prems True x by simp
    then show ?thesis using Cons.prems x p True by (simp add: walk_step)
  qed
qed

lemma walk_no_id:
  "\<forall>x \<in> set (chain e). \<not> truthy (attr_id x) \<Longrightarrow> \<not> truthy ident \<Longrightarrow>
   \<not> truthy (walk (Some e) acc ident)"
proof (induction e arbitrary: acc ident rule: chain.induct)
  case (1 i t ss pa)
  show ?case
  proof (cases pa)
    case None
    then show ?thesis using 1 by simp
  next
    case (Some p)
    then show ?thesis using 1 by simp
  qed
qed


lemma no_id_heading:
  "\<forall>x \<in> set (chain e). attr_id x = None \<Longrightarrow> \<not> truthy (getHeadingID e)"
  using walk_no_id[of e "Some []" "[]"] by (simp add: getHeadingID_def truthy_def)


text \<open>
  What the walk does when the element \<open>e\<close> has no identifier and \<open>a\<close> is its nearest
  ancestor with one (the chain of \<open>e\<close> and its ancestors is \<open>pre @ a # post\<close> with no
  identifier in \<open>pre\<close>): the identifier of \<open>a\<close> is returned exactly when the
  preceding sibling elements of the elements of \<open>pre\<close> have no text. Text nodes before
  these elements have no part in it.
\<close>

lemma getHeadingID_nearest:
  assumes "chain e = pre @ a # post" and "pre \<noteq> []"
    and "\<forall>x \<in> set pre. \<not> truthy (attr_id x)" and "truthy (attr_id a)"
  shows "(concat (map before_text pre) = [] \<longrightarrow> getHeadingID e = attr_id a)
       \<and> (concat (map before_text pre) \<noteq> [] \<longrightarrow> \<not> truthy (getHeadingID e))"
proof (intro conjI impI)
  assume t: "concat (map before_text pre) = []"
  then show "getHeadingID e = attr_id a"
    using walk_finds[OF assms(1,3,4), of "[]"] by (simp add: getHeadingID_def)
next
  assume t: "concat (map before_text pre) \<noteq> []"
  have "\<not> truthy (Some [])" by (simp add: truthy_def)
  then show "\<not> truthy (getHeadingID e)"
    using walk_gives_up[OF assms(1,3), of "[]"] t by (simp add: getHeadingID_def)
qed

lemmas parse_ops = make_heading_def parse_heading_def Let_def

lemmas title_ops = normalize_title_def trim_def is_space_def space_len_def space_codes_def

section \<open>The headings of a page, element by element\<close>

text \<open>What the callback of \<^verbatim>\<open>.each\<close> adds to the array for one element.\<close>

lemma parse_heading_acc:
  "parse_heading url keep index m hs = hs @ parse_heading url keep index m []"
  by (simp add: parse_heading_def Let_def)

lemma each_element_acc:
  "each_element url keep index ms hs = hs @ each_element url keep index ms []"
proof (induction ms arbitrary: index hs)
  case Nil
  then show ?case by simp
next
  case (Cons m ms)
  have "each_element url keep index (m # ms) hs
          = each_element url keep (Suc index) ms (parse_heading url keep index m hs)"
    by simp
  also have "\<dots> = parse_heading url keep index m hs @ each_element url keep (Suc index) ms []"
    using Cons.IH[of "Suc index" "parse_heading url keep index m hs"] .
  also have "\<dots> = hs @ parse_heading url keep index m []
                      @ each_element url keep (Suc index) ms []"
    using parse_heading_acc[of url keep index m hs] by simp
  also have "\<dots> = hs @ each_element url keep (Suc index) ms (parse_heading url keep index m [])"
    using Cons.IH[of "Suc index" "parse_heading url keep index m []"] by simp
  finally show ?case by simp
qed

lemma each_element_split:
  assumes "i < length ms"
  shows "each_element url keep index ms []
           = each_element url keep index (take i ms) []
             @ parse_heading url keep (index + i) (ms ! i) []
             @ each_element url keep (Suc (index + i)) (drop (Suc i) ms) []"
  using assms
proof (induction ms arbitrary: index i)
  case Nil
  then show ?case by simp
next
  case (Cons m ms)
  show ?case
  proof (cases i)
    case 0
    have "each_element url keep index (m # ms) []
            = parse_heading url keep index m [] @ each_element url keep (Suc index) ms []"
      using each_element_acc[of url keep "Suc index" ms "parse_heading url keep index m []"]
      by simp
    then show ?thesis using 0 by simp
  next
    case (Suc k)
    then have k: "k < length ms" using Cons.prems by simp
    have a: "each_element url keep index (m # ms) []
               = parse_heading url keep index m [] @ each_element url keep (Suc index) ms []"
      using each_element_acc[of url keep "Suc index" ms "parse_heading url keep index m []"]
      by simp
    have b: "each_element url keep index (take i (m # ms)) []
               = parse_heading url keep index m []
                 @ each_element url keep (Suc index) (take k ms) []"
      using each_element_acc[of url keep "Suc index" "take k ms"
          "parse_heading url keep index m []"] Suc
      by simp
    from Cons.IH[OF k, of "Suc index"] a b Suc show ?thesis by simp
  qed
qed

lemma parseHeadingsSync_pages:
  assumes "parseHeadingsSync load basedir urls keep = Inr pages"
  shows "length pages = length urls
       \<and> (\<forall>j < length urls. \<forall>ms. load basedir (urls ! j) = Some ms \<longrightarrow>
             pages ! j = \<lparr>page_href = urls ! j,
                           headings = each_element (urls ! j) keep 0 ms []\<rparr>)"
  using assms
proof (induction urls arbitrary: pages)
  case Nil
  then show ?case by simp
next
  case (Cons url urls)
  from Cons.prems obtain ms rest where
    l: "load basedir url = Some ms"
    and r: "parseHeadingsSync load basedir urls keep = Inr rest"
    and p: "pages = \<lparr>page_href = url, headings = each_element url keep 0 ms []\<rparr> # rest"
    by (auto simp: and_then_def split: option.splits sum.splits)
  from Cons.IH[OF r] have ih: "length rest = length urls"
    "\<And>j ms. j < length urls \<Longrightarrow> load basedir (urls ! j) = Some ms \<Longrightarrow>
       rest ! j = \<lparr>page_href = urls ! j, headings = each_element (urls ! j) keep 0 ms []\<rparr>"
    by simp_all
  show ?case
  proof (intro conjI allI impI)
    show "length pages = length (url # urls)" using p ih(1) by simp
  next
    fix j ms'
    assume j: "j < length (url # urls)" and m: "load basedir ((url # urls) ! j) = Some ms'"
    show "pages ! j = \<lparr>page_href = (url # urls) ! j,
                         headings = each_element ((url # urls) ! j) keep 0 ms' []\<rparr>"
    proof (cases j)
      case 0
      then show ?thesis using p l m by simp
    next
      case (Suc k)
      then show ?thesis using p j m ih(2)[of k ms'] by simp
    qed
  qed
qed


section \<open>Appending at the open end of a document\<close>

lemma items_text [simp]: "is_text k \<Longrightarrow> items name label d k = []"
  by (cases k) (simp_all add: is_text_def)
















section \<open>The list builder on contiguous levels\<close>


lemma text_nodes_text [simp]: "concat (map text_of (text_nodes t)) = t"
  by (simp add: text_nodes_def)

lemma text_nodes_text_only [simp]: "k \<in> set (text_nodes t) \<Longrightarrow> is_text k"
  by (auto simp: text_nodes_def is_text_def split: if_splits)
















lemma in_range_idem: "in_range depth (in_range depth hs) = in_range depth hs"
  by (simp add: in_range_def)


section \<open>The navigation-point builder on contiguous levels\<close>














section \<open>The views agree on contiguous levels\<close>







section \<open>Reading the flat output back\<close>

lemma split_lines_nonempty: "split_lines s \<noteq> []"
  by (induction s) (simp_all split: list.splits)







section \<open>The claims\<close>

text \<open>
  C1. A level-0 heading directly followed by a level-2 heading (both within the depth
  limit). In strict mode the level-2 heading contributes no entry: the tree, and the whole
  builder state with \<^verbatim>\<open>currentLevel\<close> still 0, are those built from the level-0
  heading alone; the diagnostic is still written. In lenient mode the level-0 entry has
  exactly one child, a placeholder without title and link, whose only child is the level-2
  heading.
\<close>

theorem C1_jump_0_2:
  assumes "concat (map headings pages) =
             [\<lparr>level = 0, title = a, href = l\<rparr>, \<lparr>level = 2, title = b, href = m\<rparr>]"
    and "concat (map headings pages0) = [\<lparr>level = 0, title = a, href = l\<rparr>]"
    and "2 < depth"
  shows "buildToC_json pages depth True = buildToC_json pages0 depth True
       \<and> buildToC_json pages depth True = Inr (Some [Entry (Some a) l None])
       \<and> snd (run_json pages depth True) = snd (run_json pages0 depth True)
       \<and> snd (run_json pages0 depth True) =
           Inr \<lparr>toc = Entry None None (Some [Entry (Some a) l None]),
                current = Some [], currentLevel = 0\<rparr>
       \<and> json_diagnostics pages depth True = [NonContinuous 3 b]
       \<and> buildToC_json pages depth False =
           Inr (Some [Entry (Some a) l
                  (Some [Entry None None (Some [Entry (Some b) m None])])])"
  using assms
  by (simp add: buildToC_json_def json_diagnostics_def run_json_def each_page_concat
      init_builder_def place_def json_ops numeral_2_eq_2)

theorem C1_jump_0_2_witness:
  "buildToC_json
     [\<lparr>page_href = ''A.html'',
       headings = [\<lparr>level = 0, title = ''One'', href = Some ''A.html''\<rparr>,
                   \<lparr>level = 2, title = ''Three'', href = None\<rparr>]\<rparr>] 6 True
     = Inr (Some [Entry (Some ''One'') (Some ''A.html'') None])
   \<and> buildToC_json
     [\<lparr>page_href = ''A.html'',
       headings = [\<lparr>level = 0, title = ''One'', href = Some ''A.html''\<rparr>,
                   \<lparr>level = 2, title = ''Three'', href = None\<rparr>]\<rparr>] 6 False
     = Inr (Some [Entry (Some ''One'') (Some ''A.html'')
            (Some [Entry None None (Some [Entry (Some ''Three'') None None])])])"
proof -
  let ?x = "\<lparr>level = 0, title = ''One'', href = Some ''A.html''\<rparr>"
  let ?y = "\<lparr>level = 2, title = ''Three'', href = None\<rparr>"
  let ?P = "[\<lparr>page_href = ''A.html'', headings = [?x, ?y]\<rparr>]"
  let ?Q = "[\<lparr>page_href = ''A.html'', headings = [?x]\<rparr>]"
  have a: "concat (map headings ?P) = [?x, ?y]" by simp
  have b: "concat (map headings ?Q) = [?x]" by simp
  have c: "(2::nat) < 6" by simp
  from C1_jump_0_2 [OF a b c] show ?thesis by (elim conjE) (intro conjI; assumption)
qed

text \<open>
  C5. For the levels 0, 1, 2, 1 (all within the depth limit) the second level-1 heading is
  appended to the children of the level-0 entry, after the first level-1 heading, in both
  modes. In general, in any state \<open>s\<close> the builder reaches, a heading \<open>h\<close> of a smaller
  level than \<^verbatim>\<open>currentLevel\<close> is appended to the children of the node found
  from the root by \<open>level h\<close> steps, each to the last child, which becomes
  \<^verbatim>\<open>current\<close>.
\<close>

theorem C5_ascend:
  "(stream pages = [\<lparr>level = 0, title = a, href = k\<rparr>, \<lparr>level = 1, title = b, href = l\<rparr>,
                    \<lparr>level = 2, title = c, href = m\<rparr>, \<lparr>level = 1, title = d, href = n\<rparr>]
      \<and> 2 < depth \<longrightarrow>
    buildToC_json pages depth strict =
      Inr (Some [Entry (Some a) k
                  (Some [Entry (Some b) l (Some [Entry (Some c) m None]),
                         Entry (Some d) n None])]))
   \<and> (snd (run_json pages depth strict) = Inr s \<and> level h < currentLevel s \<longrightarrow>
       (\<exists>p e ks. last_path (toc s) (level h) = Some p \<and> length p = level h
          \<and> lookup (toc s) p = Some e \<and> children e = Some ks
          \<and> snd (place strict h s) =
              Inr \<lparr>toc = modify (set_children
                                  (Some (ks @ [Entry (Some (title h)) (href h) None]))) p (toc s),
                   current = Some p, currentLevel = level h\<rparr>))"
proof (intro conjI impI)
  assume "stream pages = [\<lparr>level = 0, title = a, href = k\<rparr>, \<lparr>level = 1, title = b, href = l\<rparr>,
                    \<lparr>level = 2, title = c, href = m\<rparr>, \<lparr>level = 1, title = d, href = n\<rparr>]
      \<and> 2 < depth"
  then show "buildToC_json pages depth strict =
      Inr (Some [Entry (Some a) k
                  (Some [Entry (Some b) l (Some [Entry (Some c) m None]),
                         Entry (Some d) n None])])"
    by (simp add: buildToC_json_def run_json_stream in_range_def init_builder_def place_def
        json_ops)
next
  assume a: "snd (run_json pages depth strict) = Inr s \<and> level h < currentLevel s"
  then have "wf_state s" using run_json_wf by blast
  then obtain p0 where w: "length p0 = currentLevel s" "rightmost (toc s) p0"
    unfolding wf_state_def by blast
  define p where "p = take (level h) p0"
  have pq: "p0 = p @ drop (level h) p0" and lp: "length p = level h"
    and dne: "drop (level h) p0 \<noteq> []"
    using a w(1) by (simp_all add: p_def)
  have asc: "ascend (toc s) (level h) (Some []) = Inr (Some p)"
    using ascend_prefix[of "toc s" "[]" p0 "level h"] w a by (simp add: p_def)
  then have lpath: "last_path (toc s) (level h) = Some p"
    using ascend_last_path[of "toc s" "[]" "toc s" "level h" p]
    by (simp add: option.map_ident)
  have rp: "rightmost (toc s) p"
    and rest: "case lookup (toc s) p of None \<Rightarrow> False | Some e \<Rightarrow> rightmost e (drop (level h) p0)"
    using w(2) rightmost_append[of "toc s" p "drop (level h) p0"] pq by simp_all
  then obtain e where e: "lookup (toc s) p = Some e" "rightmost e (drop (level h) p0)"
    by (auto split: option.splits)
  then obtain ks where ks: "children e = Some ks"
    using dne by (cases "drop (level h) p0") (auto split: option.splits)
  have "snd (place strict h s) =
      Inr \<lparr>toc = modify (set_children
                          (Some (ks @ [Entry (Some (title h)) (href h) None]))) p (toc s),
           current = Some p, currentLevel = level h\<rparr>"
    using a asc push_facts(1)[OF rp e(1) ks]
    by (simp add: place_def and_then_def add_heading_def)
  then show "\<exists>p e ks. last_path (toc s) (level h) = Some p \<and> length p = level h
          \<and> lookup (toc s) p = Some e \<and> children e = Some ks
          \<and> snd (place strict h s) =
              Inr \<lparr>toc = modify (set_children
                                  (Some (ks @ [Entry (Some (title h)) (href h) None]))) p (toc s),
                   current = Some p, currentLevel = level h\<rparr>"
    using lpath lp e(1) ks by blast
qed

theorem C5_ascend_witness:
  "buildToC_json
     [\<lparr>page_href = ''A.html'',
       headings = [\<lparr>level = 0, title = ''A'', href = Some ''A.html''\<rparr>,
                   \<lparr>level = 1, title = ''B'', href = None\<rparr>,
                   \<lparr>level = 2, title = ''C'', href = None\<rparr>,
                   \<lparr>level = 1, title = ''D'', href = None\<rparr>]\<rparr>] 6 False
     = Inr (Some [Entry (Some ''A'') (Some ''A.html'')
                   (Some [Entry (Some ''B'') None (Some [Entry (Some ''C'') None None]),
                          Entry (Some ''D'') None None])])
   \<and> snd (place False \<lparr>level = 0, title = ''E'', href = None\<rparr>
         \<lparr>toc = Entry None None (Some [Entry (Some ''A'') (Some ''A.html'')
                   (Some [Entry (Some ''B'') None (Some [Entry (Some ''C'') None None]),
                          Entry (Some ''D'') None None])]),
          current = Some [0], currentLevel = 1\<rparr>)
     = Inr \<lparr>toc = Entry None None (Some [Entry (Some ''A'') (Some ''A.html'')
                   (Some [Entry (Some ''B'') None (Some [Entry (Some ''C'') None None]),
                          Entry (Some ''D'') None None]),
                   Entry (Some ''E'') None None]),
          current = Some [], currentLevel = 0\<rparr>"
proof -
  let ?P = "[\<lparr>page_href = ''A.html'',
       headings = [\<lparr>level = 0, title = ''A'', href = Some ''A.html''\<rparr>,
                   \<lparr>level = 1, title = ''B'', href = None\<rparr>,
                   \<lparr>level = 2, title = ''C'', href = None\<rparr>,
                   \<lparr>level = 1, title = ''D'', href = None\<rparr>]\<rparr>]"
  let ?T = "Entry None None (Some [Entry (Some ''A'') (Some ''A.html'')
                   (Some [Entry (Some ''B'') None (Some [Entry (Some ''C'') None None]),
                          Entry (Some ''D'') None None])])"
  let ?S = "\<lparr>toc = ?T, current = Some [0], currentLevel = 1\<rparr>"
  let ?E = "\<lparr>level = 0, title = ''E'', href = None\<rparr>"
  have a: "stream ?P = [\<lparr>level = 0, title = ''A'', href = Some ''A.html''\<rparr>,
                   \<lparr>level = 1, title = ''B'', href = None\<rparr>,
                   \<lparr>level = 2, title = ''C'', href = None\<rparr>,
                   \<lparr>level = 1, title = ''D'', href = None\<rparr>] \<and> (2::nat) < 6"
    by (simp add: stream_def)
  have b: "snd (run_json ?P 6 False) = Inr ?S \<and> level ?E < currentLevel ?S"
    by (simp add: run_json_def init_builder_def place_def json_ops)
  note t = C5_ascend [where pages = ?P and depth = 6 and strict = False and s = ?S and h = ?E
      and a = "''A''" and k = "Some ''A.html''" and b = "''B''" and l = None and c = "''C''"
      and m = None and d = "''D''" and n = None]
  from t a have one: "buildToC_json ?P 6 False
     = Inr (Some [Entry (Some ''A'') (Some ''A.html'')
                   (Some [Entry (Some ''B'') None (Some [Entry (Some ''C'') None None]),
                          Entry (Some ''D'') None None])])"
    by blast
  from t b obtain p e ks where
    two: "last_path (toc ?S) (level ?E) = Some p" "lookup (toc ?S) p = Some e"
      "children e = Some ks"
      "snd (place False ?E ?S) =
         Inr \<lparr>toc = modify (set_children
                       (Some (ks @ [Entry (Some (title ?E)) (href ?E) None]))) p (toc ?S),
              current = Some p, currentLevel = level ?E\<rparr>"
    by blast
  have p: "p = []" using two(1) by simp
  have e: "e = ?T" using two(2) p by simp
  have ks: "ks = [Entry (Some ''A'') (Some ''A.html'')
                   (Some [Entry (Some ''B'') None (Some [Entry (Some ''C'') None None]),
                          Entry (Some ''D'') None None])]"
    using two(3) e by simp
  show ?thesis using one two(4) unfolding p e ks by (simp add: set_children_def)
qed

text \<open>
  C7, as stated, fails: the single heading of level 2 is a level sequence that never falls
  and never rises by more than one between consecutive headings, yet the builder compares
  it with the initial \<^verbatim>\<open>currentLevel = 0\<close> and takes the non-contiguous branch:
  it writes the diagnostic, and then drops the heading (strict) or adds two placeholders
  (lenient).
\<close>

theorem C7_counterexample:
  "steps_ok (map level (stream
      [\<lparr>page_href = ''A.html'',
        headings = [\<lparr>level = 2, title = ''T'', href = Some ''A.html''\<rparr>]\<rparr>]))
   \<and> json_diagnostics
      [\<lparr>page_href = ''A.html'',
        headings = [\<lparr>level = 2, title = ''T'', href = Some ''A.html''\<rparr>]\<rparr>] 6 True
      = [NonContinuous 3 ''T'']
   \<and> buildToC_json
      [\<lparr>page_href = ''A.html'',
        headings = [\<lparr>level = 2, title = ''T'', href = Some ''A.html''\<rparr>]\<rparr>] 6 True
      = Inr (Some [])
   \<and> json_diagnostics
      [\<lparr>page_href = ''A.html'',
        headings = [\<lparr>level = 2, title = ''T'', href = Some ''A.html''\<rparr>]\<rparr>] 6 False
      = [NonContinuous 3 ''T'']
   \<and> buildToC_json
      [\<lparr>page_href = ''A.html'',
        headings = [\<lparr>level = 2, title = ''T'', href = Some ''A.html''\<rparr>]\<rparr>] 6 False
      = Inr (Some [Entry None None (Some [Entry None None
               (Some [Entry (Some ''T'') (Some ''A.html'') None])])])"
  by (simp add: steps_ok_def stream_def json_diagnostics_def buildToC_json_def run_json_def
      init_builder_def place_def json_ops numeral_2_eq_2)

text \<open>
  C7, amended: for every heading stream whose first heading has level 0 or 1 and whose
  levels never fall and rise by at most one at each step, the builder never takes the
  non-contiguous branch, in either mode and for every depth limit: it writes no diagnostic,
  and when it returns a tree, the tree lists exactly the headings within the depth limit,
  each at the depth of its level, with no placeholder and none dropped. (When the first
  heading within the limit has level 1 the builder returns no tree.)
\<close>

theorem C7_no_jump:
  assumes "steps_ok (map level (stream pages))"
    and "case stream pages of [] \<Rightarrow> True | h # _ \<Rightarrow> level h \<le> 1"
  shows "json_diagnostics pages depth strict = []
       \<and> ((\<exists>tree. buildToC_json pages depth strict = Inr (Some tree)
              \<and> forest tree = map listed (in_range depth (stream pages)))
          \<or> (buildToC_json pages depth strict = Inl TypeError
              \<and> (\<exists>h rest. in_range depth (stream pages) = h # rest \<and> level h = 1)))"
proof -
  let ?hs = "in_range depth (stream pages)"
  have g: "gentle 0 (map level ?hs)"
    using steps_ok_gentle[OF assms] gentle_in_range by blast
  have r: "\<forall>h \<in> set ?hs. level h < depth" by (simp add: in_range_def)
  have "currentLevel init_builder = 0" by (simp add: init_builder_def)
  then have d: "json_diagnostics pages depth strict = []"
    using gentle_no_diagnostic[OF wf_init _ r, of strict] g
    by (simp add: json_diagnostics_def run_json_stream)
  note m = flat_model_gentle[OF g, of strict True]
  note j = json_flat[where strict = strict and depth = depth and pages = pages]
  show ?thesis
  proof (cases "case ?hs of [] \<Rightarrow> False | h # _ \<Rightarrow> level h = 1")
    case True
    then have "flat_model strict True 0 ?hs = None" using m by simp
    then have "buildToC_json pages depth strict = Inl TypeError" using j by simp
    then show ?thesis using d True by (auto split: list.splits)
  next
    case False
    then have "flat_model strict True 0 ?hs = Some (map listed ?hs)" using m by simp
    then show ?thesis using d j by auto
  qed
qed


theorem C7_no_jump_witness:
  "json_diagnostics
     [\<lparr>page_href = ''A.html'',
       headings = [\<lparr>level = 0, title = ''A'', href = Some ''A.html''\<rparr>,
                   \<lparr>level = 1, title = ''B'', href = None\<rparr>,
                   \<lparr>level = 1, title = ''C'', href = None\<rparr>,
                   \<lparr>level = 2, title = ''D'', href = None\<rparr>]\<rparr>] 2 True = []"
proof -
  let ?P = "[\<lparr>page_href = ''A.html'',
       headings = [\<lparr>level = 0, title = ''A'', href = Some ''A.html''\<rparr>,
                   \<lparr>level = 1, title = ''B'', href = None\<rparr>,
                   \<lparr>level = 1, title = ''C'', href = None\<rparr>,
                   \<lparr>level = 2, title = ''D'', href = None\<rparr>]\<rparr>]"
  have a: "steps_ok (map level (stream ?P))" by (simp add: steps_ok_def stream_def)
  have b: "case stream ?P of [] \<Rightarrow> True | h # _ \<Rightarrow> level h \<le> 1" by (simp add: stream_def)
  from C7_no_jump [OF a b, of 2 True] show ?thesis by blast
qed

text \<open>
  C9. When the first heading within the depth limit has level 1, the builder is still in
  its initial state: the branch for \<^verbatim>\<open>heading.level == currentLevel + 1\<close> reads the
  last element of the empty root array, which is \<^verbatim>\<open>undefined\<close>, and the
  assignment of \<^verbatim>\<open>children\<close> on it throws. No tree is returned, in either mode.
\<close>

theorem C9_first_level_1_fails:
  assumes "find (\<lambda>h. level h < depth) (stream pages) = Some h" and "level h = 1"
  shows "last_child (toc init_builder) (current init_builder) = Inr None
       \<and> reset_children (toc init_builder) None = Inl TypeError
       \<and> snd (place strict h init_builder) = Inl TypeError
       \<and> buildToC_json pages depth strict = Inl TypeError"
proof -
  from find_filter[OF assms(1)] obtain rest where
    "in_range depth (stream pages) = h # rest"
    by (auto simp: in_range_def)
  then have "flat_model strict True 0 (in_range depth (stream pages)) = None"
    using assms(2) by simp
  then have "buildToC_json pages depth strict = Inl TypeError"
    using json_flat[where strict = strict and depth = depth and pages = pages] by simp
  moreover have "last_child (toc init_builder) (current init_builder) = Inr None"
    by (simp add: init_builder_def last_child_def children_length_def and_then_def)
  moreover have "reset_children (toc init_builder) None = Inl TypeError"
    by (simp add: reset_children_def)
  ultimately show ?thesis using place_fails[OF assms(2)] by simp
qed


theorem C9_first_level_1_fails_witness:
  "buildToC_json
     [\<lparr>page_href = ''A.html'',
       headings = [\<lparr>level = 3, title = ''Deep'', href = Some ''A.html''\<rparr>,
                   \<lparr>level = 1, title = ''B'', href = None\<rparr>]\<rparr>] 2 False = Inl TypeError"
proof -
  let ?P = "[\<lparr>page_href = ''A.html'',
       headings = [\<lparr>level = 3, title = ''Deep'', href = Some ''A.html''\<rparr>,
                   \<lparr>level = 1, title = ''B'', href = None\<rparr>]\<rparr>]"
  let ?B = "\<lparr>level = 1, title = ''B'', href = None\<rparr>"
  have a: "find (\<lambda>h. level h < 2) (stream ?P) = Some ?B" by (simp add: stream_def)
  have b: "level ?B = 1" by simp
  from C9_first_level_1_fails [OF a b, of False] show ?thesis by blast
qed

text \<open>
  C6. The builder does not return a tree for every heading stream: for a single heading of
  level 1 it throws, in both modes, although the heading is within the depth limit and the
  tree should list its title. (Whenever a tree is returned, it lists the titles in input
  order: lemma \<open>buildToC_json_order\<close>.)
\<close>

theorem C6_failing_input:
  "in_range 6 (stream
      [\<lparr>page_href = ''A.html'',
        headings = [\<lparr>level = 1, title = ''X'', href = Some ''A.html''\<rparr>]\<rparr>])
     = [\<lparr>level = 1, title = ''X'', href = Some ''A.html''\<rparr>]
   \<and> buildToC_json
      [\<lparr>page_href = ''A.html'',
        headings = [\<lparr>level = 1, title = ''X'', href = Some ''A.html''\<rparr>]\<rparr>] 6 False
      = Inl TypeError
   \<and> buildToC_json
      [\<lparr>page_href = ''A.html'',
        headings = [\<lparr>level = 1, title = ''X'', href = Some ''A.html''\<rparr>]\<rparr>] 6 True
      = Inl TypeError"
  by (simp add: in_range_def stream_def buildToC_json_def run_json_def
      init_builder_def place_def json_ops)

text \<open>
  C4 fails on an input, against the intent of the code. The comment in
  \<^verbatim>\<open>getHeadingID\<close> says that the identifier of the parent can be used if there is no
  leading text between the element and the beginning of its parent, and the loop collects
  the text before the element to decide this. It collects it with \<^verbatim>\<open>prev()\<close>, which
  passes over text nodes. In \<^verbatim>\<open><div id="x">intro text<h2>T</h2></div>\<close> the heading
  has no identifier, its nearest ancestor with one is the \<^verbatim>\<open>div\<close>, and the text of
  the siblings before the heading is ``intro text'', which is not empty; still
  \<^verbatim>\<open>getHeadingID\<close> returns \<^verbatim>\<open>x\<close>, and the heading, second on the page
  \<^verbatim>\<open>A.html\<close>, links to \<^verbatim>\<open>A.html#x\<close>, where the claim has no identifier and no
  link.
\<close>

theorem C4_failing_input:
  "attr_id (Element None ''T'' [TextNode ''intro text'']
              (Some (Element (Some ''x'') ''intro textT'' [] None))) = None
   \<and> leading_text (Element None ''T'' [TextNode ''intro text'']
              (Some (Element (Some ''x'') ''intro textT'' [] None))) = ''intro text''
   \<and> getHeadingID (Element None ''T'' [TextNode ''intro text'']
              (Some (Element (Some ''x'') ''intro textT'' [] None))) = Some ''x''
   \<and> href (make_heading ''A.html'' 1
             (H2, Element None ''T'' [TextNode ''intro text'']
                    (Some (Element (Some ''x'') ''intro textT'' [] None))))
       = Some ''A.html#x''"
  by (simp add: leading_text_def getHeadingID_def truthy_def make_heading_def Let_def)

text \<open>
  C8. Let \<^verbatim>\<open>parseHeadingsSync\<close> return \<open>pages\<close>, let \<open>ms\<close> be the heading elements
  of the page \<open>urls ! j\<close> in document order, and let \<^verbatim>\<open>getHeadingID\<close> find no
  identifier for the element at position \<open>i\<close>. The headings of the page \<open>pages ! j\<close>
  are those of the elements before position \<open>i\<close>, then what this element gives, then
  those of the elements after it. The first element of the page (\<open>i = 0\<close>) gives a
  heading with the page's own \<^verbatim>\<open>href\<close> as its link (it is listed when that
  \<^verbatim>\<open>href\<close> is not the empty string, or the flag is set); any other element gives a
  heading without link when \<^verbatim>\<open>keepAllHeadings\<close> is set and nothing when it is not,
  as in the default configuration.
\<close>

theorem C8_unresolved_heading:
  assumes "parseHeadingsSync load basedir urls keepAllHeadings = Inr pages"
    and "j < length urls" and "load basedir (urls ! j) = Some ms"
    and "i < length ms" and "\<not> truthy (getHeadingID (snd (ms ! i)))"
  shows "headings (pages ! j) =
           each_element (urls ! j) keepAllHeadings 0 (take i ms) []
           @ (if (i = 0 \<and> urls ! j \<noteq> []) \<or> keepAllHeadings
              then [\<lparr>level = tag_number (fst (ms ! i)) - 1,
                     title = normalize_title (elt_text (snd (ms ! i))),
                     href = (if i = 0 then Some (urls ! j) else None)\<rparr>]
              else [])
           @ each_element (urls ! j) keepAllHeadings (Suc i) (drop (Suc i) ms) []
       \<and> (0 < i \<and> keepAllHeadings = cfg_keepAllHeadings (default_config cwd uuid files) \<longrightarrow>
            headings (pages ! j) =
              each_element (urls ! j) keepAllHeadings 0 (take i ms) []
              @ each_element (urls ! j) keepAllHeadings (Suc i) (drop (Suc i) ms) [])"
proof -
  let ?url = "urls ! j"
  let ?h = "\<lparr>level = tag_number (fst (ms ! i)) - 1,
             title = normalize_title (elt_text (snd (ms ! i))),
             href = (if i = 0 then Some ?url else None)\<rparr>"
  have p: "pages ! j = \<lparr>page_href = ?url, headings = each_element ?url keepAllHeadings 0 ms []\<rparr>"
    using parseHeadingsSync_pages[OF assms(1)] assms(2,3) by blast
  have m: "make_heading ?url i (ms ! i) = ?h"
    using assms(5) by (simp add: make_heading_def Let_def)
  have "truthy (href ?h) \<longleftrightarrow> i = 0 \<and> ?url \<noteq> []"
    by (simp add: truthy_def)
  then have c: "parse_heading ?url keepAllHeadings i (ms ! i) []
                  = (if (i = 0 \<and> ?url \<noteq> []) \<or> keepAllHeadings then [?h] else [])"
    unfolding parse_heading_def m Let_def by simp
  have s: "headings (pages ! j) =
             each_element ?url keepAllHeadings 0 (take i ms) []
             @ parse_heading ?url keepAllHeadings i (ms ! i) []
             @ each_element ?url keepAllHeadings (Suc i) (drop (Suc i) ms) []"
    using each_element_split[OF assms(4), of ?url keepAllHeadings 0] p by simp
  show ?thesis
  proof (intro conjI impI)
    show "headings (pages ! j) =
            each_element ?url keepAllHeadings 0 (take i ms) []
            @ (if (i = 0 \<and> ?url \<noteq> []) \<or> keepAllHeadings then [?h] else [])
            @ each_element ?url keepAllHeadings (Suc i) (drop (Suc i) ms) []"
      using s c by simp
  next
    assume "0 < i \<and> keepAllHeadings = cfg_keepAllHeadings (default_config cwd uuid files)"
    then have "0 < i" "\<not> keepAllHeadings" by (simp_all add: default_config_def)
    then show "headings (pages ! j) =
                 each_element ?url keepAllHeadings 0 (take i ms) []
                 @ each_element ?url keepAllHeadings (Suc i) (drop (Suc i) ms) []"
      using s c by simp
  qed
qed

theorem C8_unresolved_heading_witness:
  "parseHeadingsSync example_load ''/book'' [''A.html'', ''B.html''] True
     = Inr [\<lparr>page_href = ''A.html'',
             headings = [\<lparr>level = 0, title = ''Intro'', href = Some ''A.html''\<rparr>,
                         \<lparr>level = 1, title = ''Background'', href = None\<rparr>]\<rparr>,
            \<lparr>page_href = ''B.html'',
             headings = [\<lparr>level = 0, title = ''Conclusion'', href = Some ''B.html''\<rparr>]\<rparr>]
   \<and> headings ([\<lparr>page_href = ''A.html'',
             headings = [\<lparr>level = 0, title = ''Intro'', href = Some ''A.html''\<rparr>,
                         \<lparr>level = 1, title = ''Background'', href = None\<rparr>]\<rparr>,
            \<lparr>page_href = ''B.html'',
             headings = [\<lparr>level = 0, title = ''Conclusion'', href = Some ''B.html''\<rparr>]\<rparr>] ! 0)
     = [\<lparr>level = 0, title = ''Intro'', href = Some ''A.html''\<rparr>]
       @ [\<lparr>level = 1, title = ''Background'', href = None\<rparr>] @ []
   \<and> parseHeadingsSync example_load ''/book'' [''A.html'', ''B.html''] False
     = Inr [\<lparr>page_href = ''A.html'',
             headings = [\<lparr>level = 0, title = ''Intro'', href = Some ''A.html''\<rparr>]\<rparr>,
            \<lparr>page_href = ''B.html'',
             headings = [\<lparr>level = 0, title = ''Conclusion'', href = Some ''B.html''\<rparr>]\<rparr>]
   \<and> headings ([\<lparr>page_href = ''A.html'',
             headings = [\<lparr>level = 0, title = ''Intro'', href = Some ''A.html''\<rparr>]\<rparr>,
            \<lparr>page_href = ''B.html'',
             headings = [\<lparr>level = 0, title = ''Conclusion'', href = Some ''B.html''\<rparr>]\<rparr>] ! 0)
     = [\<lparr>level = 0, title = ''Intro'', href = Some ''A.html''\<rparr>] @ [] @ []"
proof -
  let ?urls = "[''A.html'', ''B.html'']"
  let ?a1 = "Element None ''Intro'' [] (Some (example_body ''IntroBackground''))"
  let ?a2 = "Element None ''Background'' [ElementNode ''Intro'']
               (Some (example_body ''IntroBackground''))"
  let ?ms = "[(H1, ?a1), (H2, ?a2)]"
  let ?P = "[\<lparr>page_href = ''A.html'',
             headings = [\<lparr>level = 0, title = ''Intro'', href = Some ''A.html''\<rparr>,
                         \<lparr>level = 1, title = ''Background'', href = None\<rparr>]\<rparr>,
            \<lparr>page_href = ''B.html'',
             headings = [\<lparr>level = 0, title = ''Conclusion'', href = Some ''B.html''\<rparr>]\<rparr>]"
  let ?Q = "[\<lparr>page_href = ''A.html'',
             headings = [\<lparr>level = 0, title = ''Intro'', href = Some ''A.html''\<rparr>]\<rparr>,
            \<lparr>page_href = ''B.html'',
             headings = [\<lparr>level = 0, title = ''Conclusion'', href = Some ''B.html''\<rparr>]\<rparr>]"
  have n: "normalize_title ''Intro'' = ''Intro''" "normalize_title ''Background'' = ''Background''"
    "normalize_title ''Conclusion'' = ''Conclusion''"
    by (simp_all add: title_ops)
  have g: "\<not> truthy (getHeadingID ?a1)" "\<not> truthy (getHeadingID ?a2)"
    "\<not> truthy (getHeadingID (Element None ''Conclusion'' [] (Some (example_body ''Conclusion''))))"
    by (simp_all add: getHeadingID_def truthy_def example_body_def)
  have k: "parseHeadingsSync example_load ''/book'' ?urls True = Inr ?P"
    using n g by (simp add: example_load_def and_then_def parse_ops truthy_def)
  have d: "parseHeadingsSync example_load ''/book'' ?urls False = Inr ?Q"
    using n g by (simp add: example_load_def and_then_def parse_ops truthy_def)
  have j: "0 < length ?urls" by simp
  have l: "example_load ''/book'' (?urls ! 0) = Some ?ms" by (simp add: example_load_def)
  have i: "1 < length ?ms" by simp
  have u: "\<not> truthy (getHeadingID (snd (?ms ! 1)))" using g(2) by simp
  have e: "each_element ''A.html'' keep 0 (take 1 ?ms) []
             = [\<lparr>level = 0, title = ''Intro'', href = Some ''A.html''\<rparr>]" for keep
    using n g by (simp add: parse_ops truthy_def)
  from C8_unresolved_heading [OF k j l i u, of "''/book''" "''0000''" ?urls]
  have "headings (?P ! 0) = [\<lparr>level = 0, title = ''Intro'', href = Some ''A.html''\<rparr>]
       @ [\<lparr>level = 1, title = ''Background'', href = None\<rparr>] @ []"
    using n by simp
  moreover from C8_unresolved_heading [OF d j l i u, of "''/book''" "''0000''" ?urls]
  have "headings (?Q ! 0) = [\<lparr>level = 0, title = ''Intro'', href = Some ''A.html''\<rparr>] @ [] @ []"
    by simp
  ultimately show ?thesis using k d by simp
qed

text \<open>
  C3, as stated, fails. With the default configuration \<^verbatim>\<open>keepAllHeadings\<close> is false:
  ``Background'' is not the first heading of its page and has no identifier, so it gets no
  link and is left out of the page's headings; the tree has two entries and no children.
\<close>

theorem C3_counterexample:
  "toc_json example_load (default_config ''/book'' ''0000'' [''A.html'', ''B.html''])
     = Inr (Some [Entry (Some ''Intro'') (Some ''A.html'') None,
                  Entry (Some ''Conclusion'') (Some ''B.html'') None])
   \<and> toc_json example_load (default_config ''/book'' ''0000'' [''A.html'', ''B.html''])
     \<noteq> Inr (Some [Entry (Some ''Intro'') (Some ''A.html'')
                     (Some [Entry (Some ''Background'') None None]),
                   Entry (Some ''Conclusion'') (Some ''B.html'') None])"
  by (simp add: toc_json_def default_config_def example_load_def example_body_def
      parse_ops getHeadingID_def truthy_def title_ops
      buildToC_json_def run_json_def init_builder_def place_def json_ops)


text \<open>
  C3, amended: for the two pages (page \<^verbatim>\<open>A.html\<close> with an \<^verbatim>\<open>h1\<close> ``Intro''
  followed by an \<^verbatim>\<open>h2\<close> ``Background'', page \<^verbatim>\<open>B.html\<close> with an \<^verbatim>\<open>h1\<close>
  ``Conclusion'', no identifier on any of these elements or their ancestors), heading
  extraction followed by the nested builder yields the tree of the claim when the default
  configuration is changed to keep all headings; with the default configuration itself it
  yields the two entries ``Intro'' and ``Conclusion'', linked to their pages, without
  children.
\<close>

theorem C3_two_pages:
  assumes "load cwd ''A.html'' = Some [(H1, a1), (H2, a2)]"
    and "load cwd ''B.html'' = Some [(H1, b1)]"
    and "\<forall>e \<in> {a1, a2, b1}. \<forall>x \<in> set (chain e). attr_id x = None"
    and "normalize_title (elt_text a1) = ''Intro''"
    and "normalize_title (elt_text a2) = ''Background''"
    and "normalize_title (elt_text b1) = ''Conclusion''"
  shows "toc_json load
           ((default_config cwd uuid [''A.html'', ''B.html''])\<lparr>cfg_keepAllHeadings := True\<rparr>)
         = Inr (Some [Entry (Some ''Intro'') (Some ''A.html'')
                        (Some [Entry (Some ''Background'') None None]),
                      Entry (Some ''Conclusion'') (Some ''B.html'') None])
       \<and> toc_json load (default_config cwd uuid [''A.html'', ''B.html''])
         = Inr (Some [Entry (Some ''Intro'') (Some ''A.html'') None,
                      Entry (Some ''Conclusion'') (Some ''B.html'') None])"
proof -
  have n: "\<not> truthy (getHeadingID a1)" "\<not> truthy (getHeadingID a2)" "\<not> truthy (getHeadingID b1)"
    using assms(3) no_id_heading by simp_all
  have hA: "make_heading ''A.html'' 0 (H1, a1) = \<lparr>level = 0, title = ''Intro'', href = Some ''A.html''\<rparr>"
    and hB: "make_heading ''A.html'' 1 (H2, a2) = \<lparr>level = 1, title = ''Background'', href = None\<rparr>"
    and hC: "make_heading ''B.html'' 0 (H1, b1) = \<lparr>level = 0, title = ''Conclusion'', href = Some ''B.html''\<rparr>"
    using n assms(4-6) by (simp_all add: make_heading_def Let_def)
  have pk: "parseHeadingsSync load cwd [''A.html'', ''B.html''] True =
      Inr [\<lparr>page_href = ''A.html'',
            headings = [\<lparr>level = 0, title = ''Intro'', href = Some ''A.html''\<rparr>,
                        \<lparr>level = 1, title = ''Background'', href = None\<rparr>]\<rparr>,
           \<lparr>page_href = ''B.html'',
            headings = [\<lparr>level = 0, title = ''Conclusion'', href = Some ''B.html''\<rparr>]\<rparr>]"
    using assms(1,2) hA hB hC by (simp add: and_then_def parse_heading_def truthy_def)
  have pd: "parseHeadingsSync load cwd [''A.html'', ''B.html''] False =
      Inr [\<lparr>page_href = ''A.html'',
            headings = [\<lparr>level = 0, title = ''Intro'', href = Some ''A.html''\<rparr>]\<rparr>,
           \<lparr>page_href = ''B.html'',
            headings = [\<lparr>level = 0, title = ''Conclusion'', href = Some ''B.html''\<rparr>]\<rparr>]"
    using assms(1,2) hA hB hC by (simp add: and_then_def parse_heading_def truthy_def)
  show ?thesis
    by (simp add: toc_json_def default_config_def pk pd
        buildToC_json_def run_json_def init_builder_def place_def json_ops
        del: parseHeadingsSync.simps)
qed


theorem C3_two_pages_witness:
  "toc_json example_load
     ((default_config ''/book'' ''0000'' [''A.html'', ''B.html''])\<lparr>cfg_keepAllHeadings := True\<rparr>)
   = Inr (Some [Entry (Some ''Intro'') (Some ''A.html'')
                  (Some [Entry (Some ''Background'') None None]),
                Entry (Some ''Conclusion'') (Some ''B.html'') None])"
proof -
  let ?a1 = "Element None ''Intro'' [] (Some (example_body ''IntroBackground''))"
  let ?a2 = "Element None ''Background'' [ElementNode ''Intro'']
                     (Some (example_body ''IntroBackground''))"
  let ?b1 = "Element None ''Conclusion'' [] (Some (example_body ''Conclusion''))"
  have 1: "example_load ''/book'' ''A.html'' = Some [(H1, ?a1), (H2, ?a2)]"
    and 2: "example_load ''/book'' ''B.html'' = Some [(H1, ?b1)]"
    by (simp_all add: example_load_def)
  have 3: "\<forall>e \<in> {?a1, ?a2, ?b1}. \<forall>x \<in> set (chain e). attr_id x = None"
    by (simp add: example_body_def)
  have 4: "normalize_title (elt_text ?a1) = ''Intro''"
    and 5: "normalize_title (elt_text ?a2) = ''Background''"
    and 6: "normalize_title (elt_text ?b1) = ''Conclusion''"
    by (simp_all add: title_ops)
  from C3_two_pages [where load = example_load and cwd = "''/book''" and uuid = "''0000''"
      and ?a1.0 = ?a1 and ?a2.0 = ?a2 and ?b1.0 = ?b1, OF 1 2 3 4 5 6]
  show ?thesis by blast
qed

text \<open>
  C10. When the format chosen (\<^verbatim>\<open>format || config.format\<close>) is none of
  \<^verbatim>\<open>txt\<close>, \<^verbatim>\<open>json\<close>, \<^verbatim>\<open>ncx\<close> and \<^verbatim>\<open>xhtml\<close>, \<^verbatim>\<open>buildToC\<close> writes the
  diagnostic of an unsupported format and returns the empty string, whatever the pages
  are. (When it is given no pages it reads them first, and a page that cannot be read
  makes it throw before the format is looked at.)
\<close>

theorem C10_unsupported_format:
  assumes "chosen_format config fmt \<notin> {Some ''txt'', Some ''json'', Some ''ncx'', Some ''xhtml''}"
  shows "buildToC ext config fmt (Some pages) = ([UnsupportedFormat (cfg_format config)], Inr [])
       \<and> buildToC ext config fmt None =
           (case parseHeadingsSync (ext_load ext) (cfg_basedir config) (cfg_spine config)
                   (cfg_keepAllHeadings config) of
              Inl e \<Rightarrow> ([], Inl e)
            | Inr ps \<Rightarrow> ([UnsupportedFormat (cfg_format config)], Inr []))"
  using assms by (auto simp: buildToC_def pages_or_parse_def Let_def split: sum.splits)

theorem C10_unsupported_format_witness:
  "buildToC \<lparr>ext_load = example_load, ext_stringify = (\<lambda>t. []), ext_html = (\<lambda>d. [])\<rparr>
     ((default_config ''/book'' ''0000'' [''A.html''])\<lparr>cfg_format := Some ''pdf''\<rparr>)
     None (Some [\<lparr>page_href = ''A.html'',
                  headings = [\<lparr>level = 0, title = ''Intro'', href = Some ''A.html''\<rparr>]\<rparr>])
   = ([UnsupportedFormat (Some ''pdf'')], Inr [])"
proof -
  let ?c = "(default_config ''/book'' ''0000'' [''A.html''])\<lparr>cfg_format := Some ''pdf''\<rparr>"
  have a: "chosen_format ?c None \<notin> {Some ''txt'', Some ''json'', Some ''ncx'', Some ''xhtml''}"
    by (simp add: chosen_format_def truthy_def default_config_def)
  have b: "cfg_format ?c = Some ''pdf''" by simp
  from C10_unsupported_format [OF a] b show ?thesis by simp
qed






end
